theory Spec2Isabelle
  imports Main "HOL-Library.Sublist" "HOL-Library.Multiset" "HOL-Library.AList"
begin

section \<open>Python values, errors and dictionaries\<close>

text \<open>
  The values that travel through the node structure are JSON values. A JSON object lists
  its members in the order in which iterating the Python dict yields them.
\<close>

datatype json =
    JNull
  | JBool bool
  | JInt int
  | JStr string
  | JArr "json list"
  | JObj "(string \<times> json) list"

text \<open>The exceptions that the modelled code raises, explicitly or by a failed lookup.\<close>

datatype error = KeyError | ValueError | AttributeError | TypeError | RuntimeError

text \<open>
  A dictionary is an association list with distinct keys, in insertion order. For an
  \<open>OrderedDict\<close> that is also the order of iteration. A plain dict of Python 2
  iterates in an order the language leaves open: \<open>ord\<close> maps the keys (in insertion
  order) to the order of iteration, and \<open>rearranges ord\<close> says that it only reorders.
\<close>

definition getitem :: "(string \<times> 'v) list \<Rightarrow> string \<Rightarrow> error + 'v" where
  "getitem d k = (case map_of d k of None \<Rightarrow> Inl KeyError | Some v \<Rightarrow> Inr v)"

definition setitem :: "(string \<times> 'v) list \<Rightarrow> string \<Rightarrow> 'v \<Rightarrow> (string \<times> 'v) list" where
  "setitem d k v = AList.update k v d"

definition delitem :: "(string \<times> 'v) list \<Rightarrow> string \<Rightarrow> error + (string \<times> 'v) list" where
  "delitem d k = (case map_of d k of None \<Rightarrow> Inl KeyError | Some v \<Rightarrow> Inr (AList.delete k d))"

definition contains :: "(string \<times> 'v) list \<Rightarrow> string \<Rightarrow> bool" where
  "contains d k = (map_of d k \<noteq> None)"

definition dict_update :: "(string \<times> 'v) list \<Rightarrow> (string \<times> 'v) list \<Rightarrow> (string \<times> 'v) list" where
  "dict_update d e = fold (\<lambda>(k, v) acc. setitem acc k v) e d"

definition dict_items :: "(string list \<Rightarrow> string list) \<Rightarrow> (string \<times> 'v) list \<Rightarrow> (string \<times> 'v) list" where
  "dict_items ord d = List.map_filter (\<lambda>k. map_option (Pair k) (map_of d k)) (ord (map fst d))"

definition rearranges :: "(string list \<Rightarrow> string list) \<Rightarrow> bool" where
  "rearranges ord = (\<forall>ks. mset (ord ks) = mset ks)"

definition py_dict :: "(string list \<Rightarrow> string list) \<Rightarrow> (string \<times> json) list \<Rightarrow> json" where
  "py_dict ord d = JObj (dict_items ord d)"

text \<open>\<open>s.index(c, start)\<close>: the first position of \<open>c\<close> at or after \<open>start\<close>.\<close>

definition str_index :: "string \<Rightarrow> char \<Rightarrow> nat \<Rightarrow> error + nat" where
  "str_index s c start =
     (let k = length (takeWhile (\<lambda>x. x \<noteq> c) (drop start s))
      in if start + k < length s then Inr (start + k) else Inl ValueError)"

section \<open>The typed value of a node\<close>

text \<open>
  Modelled from the spec: the class \<open>Value\<close> of \<open>dslink/Value.py\<close> is not among the
  sources. The spec describes a raw value, a declared type tag and the timestamp of the
  last mutation; \<open>has_value\<close> holds iff a value has ever been assigned; the timestamp is
  set exactly once per assignment; setting compares against and replaces the value and
  returns whether it changed. The value and the ISO form of its timestamp are assigned
  together, so they are kept as one optional pair.
\<close>

record typed_value =
  assigned :: "(json \<times> string) option"
  vtype :: "json option"

definition Value_init :: typed_value where
  "Value_init = \<lparr>assigned = None, vtype = None\<rparr>"

definition has_value :: "typed_value \<Rightarrow> bool" where
  "has_value tv = (assigned tv \<noteq> None)"

definition Value_set_type :: "json \<Rightarrow> typed_value \<Rightarrow> typed_value" where
  "Value_set_type t tv = tv\<lparr>vtype := Some t\<rparr>"

text \<open>\<open>now\<close> is the ISO form of the clock's reading at the moment of the call.\<close>

definition Value_set_value :: "json \<Rightarrow> string \<Rightarrow> typed_value \<Rightarrow> bool \<times> typed_value" where
  "Value_set_value v now tv =
     (if map_option fst (assigned tv) = Some v then (False, tv)
      else (True, tv\<lparr>assigned := Some (v, now)\<rparr>))"

section \<open>The link and the node\<close>

text \<open>
  The fields of \<open>DSLink\<close> that the node code reads and writes: the \<open>active\<close> flag,
  the \<open>nodes_changed\<close> flag, and the transport handle \<open>wsp\<close>, which is \<open>None\<close>
  until a transport is attached and otherwise holds the messages passed to
  \<open>sendMessage\<close>, oldest first.
\<close>

record dslink =
  active :: bool
  nodes_changed :: bool
  wsp :: "json list option"

definition sendMessage :: "json \<Rightarrow> dslink \<Rightarrow> error + dslink" where
  "sendMessage msg l =
     (case wsp l of None \<Rightarrow> Inl AttributeError | Some sent \<Rightarrow> Inr (l\<lparr>wsp := Some (sent @ [msg])\<rparr>))"

text \<open>
  A \<open>Node\<close> object. \<open>has_link\<close> tells whether the attribute \<open>self.link\<close> has been set
  (the constructor sets it only for a node with a parent); reading it otherwise raises
  \<open>AttributeError\<close>. The process has one link, passed to the operations as state. The
  \<open>parent\<close> back-reference is read by the constructor only and is not kept, nor is the
  logger; \<open>val\<close> is the attribute \<open>value\<close>. \<open>children\<close> is a plain dict,
  \<open>config\<close> and \<open>attributes\<close> are \<open>OrderedDict\<close>s.
\<close>

datatype node = Node
  (name: string)
  (path: string)
  (has_link: bool)
  (standalone: bool)
  (transient: bool)
  (val: typed_value)
  (children: "(string \<times> node) list")
  (config: "(string \<times> json) list")
  (attributes: "(string \<times> json) list")
  (subscribers: "int list")
  (streams: "int list")
  (removed_children: "node list")

fun with_has_link :: "bool \<Rightarrow> node \<Rightarrow> node" where
  "with_has_link x (Node nm p hl sa tr v ch cf at su st rc) = Node nm p x sa tr v ch cf at su st rc"

fun with_transient :: "bool \<Rightarrow> node \<Rightarrow> node" where
  "with_transient x (Node nm p hl sa tr v ch cf at su st rc) = Node nm p hl sa x v ch cf at su st rc"

fun with_value :: "typed_value \<Rightarrow> node \<Rightarrow> node" where
  "with_value x (Node nm p hl sa tr v ch cf at su st rc) = Node nm p hl sa tr x ch cf at su st rc"

fun with_children :: "(string \<times> node) list \<Rightarrow> node \<Rightarrow> node" where
  "with_children x (Node nm p hl sa tr v ch cf at su st rc) = Node nm p hl sa tr v x cf at su st rc"

fun with_config :: "(string \<times> json) list \<Rightarrow> node \<Rightarrow> node" where
  "with_config x (Node nm p hl sa tr v ch cf at su st rc) = Node nm p hl sa tr v ch x at su st rc"

fun with_attributes :: "(string \<times> json) list \<Rightarrow> node \<Rightarrow> node" where
  "with_attributes x (Node nm p hl sa tr v ch cf at su st rc) = Node nm p hl sa tr v ch cf x su st rc"

fun with_subscribers :: "int list \<Rightarrow> node \<Rightarrow> node" where
  "with_subscribers x (Node nm p hl sa tr v ch cf at su st rc) = Node nm p hl sa tr v ch cf at x st rc"

fun with_removed_children :: "node list \<Rightarrow> node \<Rightarrow> node" where
  "with_removed_children x (Node nm p hl sa tr v ch cf at su st rc) = Node nm p hl sa tr v ch cf at su st x"

text \<open>
  \<open>Node.__init__(name, parent, standalone)\<close>. \<open>name\<close> may be \<open>None\<close>; with a parent
  that makes the string concatenation raise \<open>TypeError\<close>.
\<close>

definition Node_init :: "string option \<Rightarrow> node option \<Rightarrow> bool \<Rightarrow> error + node" where
  "Node_init nm parent sa =
     (case parent of
        Some p \<Rightarrow>
          (if \<not> has_link p then Inl AttributeError
           else case nm of
             None \<Rightarrow> Inl TypeError
           | Some s \<Rightarrow>
               Inr (Node s (if suffix ''/'' (path p) then path p @ s else path p @ ''/'' @ s)
                      True sa False Value_init [] [(''$is'', JStr ''node'')] [] [] [] []))
      | None \<Rightarrow>
          (case nm of
             Some s \<Rightarrow>
               Inr (Node s (''/'' @ s) False sa False Value_init [] [(''$is'', JStr ''node'')] [] [] [] [])
           | None \<Rightarrow>
               Inr (Node '''' '''' False sa False Value_init [] [(''$is'', JStr ''node'')] [] [] [] [])))"

text \<open>
  \<open>Node.get(path)\<close>. The result is the node found, or \<open>None\<close> after the swallowed
  \<open>KeyError\<close>; the two \<open>try\<close> blocks are the two \<open>case\<close> distinctions on the error.
  The warning written to the logger has no part in the result and is left out.
\<close>

function get :: "node \<Rightarrow> string \<Rightarrow> error + node option" where
  "get n p =
     (if p = ''/'' then Inr (Some n)
      else if prefix ''/$'' p then Inr (Some n)
      else if prefix ''/@'' p then Inr (Some n)
      else
        (case
           (case
              (case str_index p CHR ''/'' 2 of
                 Inl e \<Rightarrow> Inl e
               | Inr i \<Rightarrow>
                   (case getitem (children n) (take (i - 1) (drop 1 p)) of
                      Inl e \<Rightarrow> Inl e
                    | Inr c \<Rightarrow> get c (drop i p)))
            of
              Inl ValueError \<Rightarrow>
                (case getitem (children n) (drop 1 p) of
                   Inl e \<Rightarrow> Inl e
                 | Inr c \<Rightarrow> Inr (Some c))
            | r \<Rightarrow> r)
         of
           Inl KeyError \<Rightarrow> Inr None
         | r \<Rightarrow> r))"
  by pat_completeness auto
termination
proof (relation "measure (\<lambda>(n, p). length p)")
  show "wf (measure (\<lambda>(n, p). length p))" by simp
next
  fix n :: node and p :: string and i :: nat and c :: node
  assume "str_index p CHR ''/'' 2 = Inr i"
  then have "2 \<le> i" and "i < length p"
    by (auto simp: str_index_def Let_def split: if_splits)
  then show "((c, drop i p), (n, p)) \<in> measure (\<lambda>(n, p). length p)"
    by simp
qed

declare get.simps [simp del]

section \<open>What lies outside the sources\<close>

text \<open>
  The order in which a plain dict iterates, and the collaborators whose code is not among
  the sources: \<open>get_stream\<close> is \<open>Response(...).get_stream()\<close>, applied to the
  response dict; \<open>set_value_callback\<close> is the legacy callback installed on the node,
  \<open>None\<close> when it has no \<open>__call__\<close>; \<open>run_set_callback\<close> stands for
  \<open>profile_manager.get_profile(profile).run_set_callback(...)\<close>, which raises
  \<open>ValueError\<close> for an unknown profile. The callbacks act on the link; an error result
  carries no state.
\<close>

record env =
  ord :: "string list \<Rightarrow> string list"
  get_stream :: "json \<Rightarrow> json"
  set_value_callback :: "(json \<Rightarrow> dslink \<Rightarrow> error + dslink) option"
  run_set_callback :: "json \<Rightarrow> json \<Rightarrow> dslink \<Rightarrow> error + dslink"

section \<open>Structural reads and notifications\<close>

text \<open>The first two loops of \<open>Node.stream\<close>: \<open>out.append([c, d[c]])\<close> for every key.\<close>

fun stream_entries :: "(string \<times> json) list \<Rightarrow> json list \<Rightarrow> json list" where
  "stream_entries [] out = out"
| "stream_entries ((k, v) # d) out = stream_entries d (out @ [JArr [JStr k, v]])"

text \<open>The dict \<open>i\<close> built for one child: its config, updated by its attributes and by \<open>val\<close>.\<close>

definition child_val :: "node \<Rightarrow> (string \<times> json) list" where
  "child_val c =
     (if has_value (val c) then
        (case assigned (val c) of
           Some (v, ts) \<Rightarrow> [(''value'', v), (''ts'', JStr ts)]
         | None \<Rightarrow> [])
      else [])"

definition child_descriptor :: "(string list \<Rightarrow> string list) \<Rightarrow> node \<Rightarrow> json" where
  "child_descriptor od c =
     py_dict od (dict_update (dict_update (config c) (attributes c)) (child_val c))"

fun stream_children :: "(string list \<Rightarrow> string list) \<Rightarrow> (string \<times> node) list \<Rightarrow> json list \<Rightarrow> json list" where
  "stream_children od [] out = out"
| "stream_children od ((k, c) # cs) out =
     stream_children od cs (out @ [JArr [JStr (name c), child_descriptor od c]])"

definition tombstone :: "(string list \<Rightarrow> string list) \<Rightarrow> node \<Rightarrow> json" where
  "tombstone od c = py_dict od [(''name'', JStr (name c)), (''change'', JStr ''remove'')]"

text \<open>The last loop: one tombstone per removed child, each marking the link as changed.\<close>

fun stream_removed ::
  "(string list \<Rightarrow> string list) \<Rightarrow> bool \<Rightarrow> node list \<Rightarrow> json list \<Rightarrow> dslink \<Rightarrow> error + (json list \<times> dslink)" where
  "stream_removed od hl [] out l = Inr (out, l)"
| "stream_removed od hl (c # cs) out l =
     (if \<not> hl then Inl AttributeError
      else stream_removed od hl cs (out @ [tombstone od c]) (l\<lparr>nodes_changed := True\<rparr>))"

text \<open>\<open>Node.stream()\<close>: the batch, the link and the node after \<open>del self.removed_children[:]\<close>.\<close>

definition stream :: "env \<Rightarrow> dslink \<Rightarrow> node \<Rightarrow> error + (json list \<times> dslink \<times> node)" where
  "stream e l n =
     (let out = stream_entries (config n) [];
          out = stream_entries (attributes n) out;
          out = stream_children (ord e) (dict_items (ord e) (children n)) out
      in case stream_removed (ord e) (has_link n) (removed_children n) out l of
           Inl err \<Rightarrow> Inl err
         | Inr (out, l') \<Rightarrow> Inr (out, l', with_removed_children [] n))"

text \<open>The loop of \<open>Node.update_subscribers\<close> over the stream ids, collecting the responses.\<close>

fun stream_responses ::
  "env \<Rightarrow> int list \<Rightarrow> json list \<Rightarrow> dslink \<Rightarrow> node \<Rightarrow> error + (json list \<times> dslink \<times> node)" where
  "stream_responses e [] responses l n = Inr (responses, l, n)"
| "stream_responses e (s # ss) responses l n =
     (case stream e l n of
        Inl err \<Rightarrow> Inl err
      | Inr (batch, l', n') \<Rightarrow>
          stream_responses e ss
            (responses @
               [get_stream e
                  (py_dict (ord e) [(''rid'', JInt s), (''stream'', JStr ''open''), (''updates'', JArr batch)])])
            l' n')"

definition update_subscribers :: "env \<Rightarrow> dslink \<Rightarrow> node \<Rightarrow> error + (dslink \<times> node)" where
  "update_subscribers e l n =
     (case stream_responses e (streams n) [] l n of
        Inl err \<Rightarrow> Inl err
      | Inr (responses, l', n') \<Rightarrow>
          (if responses \<noteq> [] then
             (if \<not> has_link n' then Inl AttributeError
              else case sendMessage (py_dict (ord e) [(''responses'', JArr responses)]) l' of
                     Inl err \<Rightarrow> Inl err
                   | Inr l'' \<Rightarrow> Inr (l'', n'))
           else Inr (l', n')))"

text \<open>\<open>Node.update_subscribers_values()\<close>: one response per subscriber, in one message.\<close>

fun value_responses :: "(string list \<Rightarrow> string list) \<Rightarrow> json \<Rightarrow> string \<Rightarrow> int list \<Rightarrow> json list \<Rightarrow> json list" where
  "value_responses od v ts [] responses = responses"
| "value_responses od v ts (s # ss) responses =
     value_responses od v ts ss
       (responses @ [py_dict od [(''rid'', JInt 0), (''updates'', JArr [JArr [JInt s, v, JStr ts]])]])"

definition update_subscribers_values :: "env \<Rightarrow> dslink \<Rightarrow> node \<Rightarrow> error + dslink" where
  "update_subscribers_values e l n =
     (if has_value (val n) then
        (case assigned (val n) of
           None \<Rightarrow> Inr l
         | Some (v, ts) \<Rightarrow>
             (let responses = value_responses (ord e) v ts (subscribers n) []
              in if length responses \<noteq> 0 then
                   (if \<not> has_link n then Inl AttributeError
                    else sendMessage (py_dict (ord e) [(''responses'', JArr responses)]) l)
                 else Inr l))
      else Inr l)"

section \<open>Mutators of a node\<close>

text \<open>\<open>Node.get_config(key)\<close>.\<close>

definition get_config :: "node \<Rightarrow> string \<Rightarrow> error + json" where
  "get_config n k = getitem (config n) k"

text \<open>\<open>Node.set_config(key, value)\<close> and \<open>Node.set_attribute(key, value)\<close>.\<close>

definition set_config :: "env \<Rightarrow> string \<Rightarrow> json \<Rightarrow> dslink \<Rightarrow> node \<Rightarrow> error + (dslink \<times> node)" where
  "set_config e k v l n =
     (if \<not> has_link n then Inl AttributeError
      else update_subscribers e (l\<lparr>nodes_changed := True\<rparr>) (with_config (setitem (config n) k v) n))"

definition set_attribute :: "env \<Rightarrow> string \<Rightarrow> json \<Rightarrow> dslink \<Rightarrow> node \<Rightarrow> error + (dslink \<times> node)" where
  "set_attribute e k v l n =
     (if \<not> has_link n then Inl AttributeError
      else update_subscribers e (l\<lparr>nodes_changed := True\<rparr>) (with_attributes (setitem (attributes n) k v) n))"

text \<open>\<open>Node.set_type(t)\<close>.\<close>

definition set_type :: "env \<Rightarrow> json \<Rightarrow> dslink \<Rightarrow> node \<Rightarrow> error + (dslink \<times> node)" where
  "set_type e t l n = set_config e ''$type'' t l (with_value (Value_set_type t (val n)) n)"

text \<open>
  \<open>Node.set_value(value, trigger_callback)\<close>, called when the clock reads \<open>now\<close>. The
  guard is \<open>not self.standalone or self.link.active\<close>: the link is read only for a
  standalone node.
\<close>

definition set_value ::
  "env \<Rightarrow> json \<Rightarrow> bool \<Rightarrow> string \<Rightarrow> dslink \<Rightarrow> node \<Rightarrow> error + (bool \<times> dslink \<times> node)" where
  "set_value e v trigger_callback now l n =
     (case Value_set_value v now (val n) of (i, tv) \<Rightarrow>
        (let n' = with_value tv n in
         if i \<and> standalone n' \<and> \<not> has_link n' then Inl AttributeError
         else if i \<and> (\<not> standalone n' \<or> active l) then
           (case update_subscribers_values e l n' of
              Inl err \<Rightarrow> Inl err
            | Inr l1 \<Rightarrow>
                (if trigger_callback then
                   (case (case set_value_callback e of
                            None \<Rightarrow> Inr l1
                          | Some cb \<Rightarrow> cb v l1) of
                      Inl err \<Rightarrow> Inl err
                    | Inr l2 \<Rightarrow>
                        (if \<not> has_link n' then Inl AttributeError
                         else case get_config n' ''$is'' of
                                Inl err \<Rightarrow> Inl err
                              | Inr profile \<Rightarrow>
                                  (case run_set_callback e profile v l2 of
                                     Inl ValueError \<Rightarrow> Inr (i, l2, n')
                                   | Inl err \<Rightarrow> Inl err
                                   | Inr l3 \<Rightarrow> Inr (i, l3, n'))))
                 else Inr (i, l1, n')))
         else Inr (i, l, n')))"

text \<open>\<open>Node.add_child(child)\<close>, \<open>Node.remove_child(name)\<close> and \<open>Node.has_child(name)\<close>.\<close>

definition add_child :: "env \<Rightarrow> node \<Rightarrow> dslink \<Rightarrow> node \<Rightarrow> error + (dslink \<times> node)" where
  "add_child e child l n =
     (if contains (children n) (name child) then Inl ValueError
      else if \<not> has_link n then Inl AttributeError
      else
        (let n' = with_children (setitem (children n) (name child) child) n;
             l' = l\<lparr>nodes_changed := True\<rparr>
         in if standalone n' \<or> active l' then update_subscribers e l' n' else Inr (l', n')))"

definition remove_child :: "env \<Rightarrow> string \<Rightarrow> dslink \<Rightarrow> node \<Rightarrow> error + (bool \<times> dslink \<times> node)" where
  "remove_child e nm l n =
     (case map_of (children n) nm of
        None \<Rightarrow> Inr (False, l, n)
      | Some c \<Rightarrow>
          (case update_subscribers e l
                  (with_removed_children (removed_children n @ [c])
                     (with_children (AList.delete nm (children n)) n)) of
             Inl err \<Rightarrow> Inl err
           | Inr (l', n') \<Rightarrow> Inr (True, l', n')))"

definition has_child :: "node \<Rightarrow> string \<Rightarrow> bool" where
  "has_child n nm = contains (children n) nm"

text \<open>
  The object that \<open>get\<close> returns is the one held by the tree, so a mutation of it shows in
  the node on which \<open>get\<close> was called: \<open>put n p m\<close> is \<open>n\<close> with the node that
  \<open>get n p\<close> finds replaced by \<open>m\<close>.
\<close>

function put :: "node \<Rightarrow> string \<Rightarrow> node \<Rightarrow> node" where
  "put n p m =
     (if p = ''/'' \<or> prefix ''/$'' p \<or> prefix ''/@'' p then m
      else
        (case str_index p CHR ''/'' 2 of
           Inr i \<Rightarrow>
             (case map_of (children n) (take (i - 1) (drop 1 p)) of
                None \<Rightarrow> n
              | Some c \<Rightarrow>
                  with_children (setitem (children n) (take (i - 1) (drop 1 p)) (put c (drop i p) m)) n)
         | Inl err \<Rightarrow>
             (if contains (children n) (drop 1 p)
              then with_children (setitem (children n) (drop 1 p) m) n
              else n)))"
  by pat_completeness auto
termination
proof (relation "measure (\<lambda>(n, p, m). length p)")
  show "wf (measure (\<lambda>(n, p, m). length p))" by simp
next
  fix n :: node and p :: string and m :: node and i :: nat and c :: node
  assume "str_index p CHR ''/'' 2 = Inr i"
  then have "2 \<le> i" and "i < length p"
    by (auto simp: str_index_def Let_def split: if_splits)
  then show "((c, drop i p, m), (n, p, m)) \<in> measure (\<lambda>(n, p, m). length p)"
    by simp
qed

declare put.simps [simp del]

text \<open>
  \<open>Node.remove_config_attr(path)\<close>. The last branch calls the method again on the node
  that \<open>get\<close> returns, with the same path; for the path \<open>"/"\<close> that node is \<open>self\<close>
  and the calls never end, until the interpreter's recursion limit raises
  \<open>RuntimeError\<close>. The first argument is the number of frames the interpreter still
  allows. \<open>get\<close> returning \<open>None\<close> makes the attribute access raise.
\<close>

fun remove_config_attr :: "nat \<Rightarrow> node \<Rightarrow> string \<Rightarrow> error + node" where
  "remove_config_attr 0 n p = Inl RuntimeError"
| "remove_config_attr (Suc depth) n p =
     (if prefix ''/$'' p \<or> prefix (path n @ ''/$'') p then
        (case delitem (config n) (drop 2 p) of
           Inl err \<Rightarrow> Inl err
         | Inr cf \<Rightarrow> Inr (with_config cf n))
      else if prefix ''/@'' p \<or> prefix (path n @ ''/@'') p then
        (case delitem (config n) (drop 2 p) of
           Inl err \<Rightarrow> Inl err
         | Inr cf \<Rightarrow> Inr (with_config cf n))
      else
        (case get n p of
           Inl err \<Rightarrow> Inl err
         | Inr None \<Rightarrow> Inl AttributeError
         | Inr (Some m) \<Rightarrow>
             (case remove_config_attr depth m p of
                Inl err \<Rightarrow> Inl err
              | Inr m' \<Rightarrow> Inr (put n p m'))))"

section \<open>The tree serializer\<close>

text \<open>
  \<open>Node.to_json()\<close>. \<open>out\<close> is a plain dict: the three loops assign into it, the last
  one for the children that are not transient.
\<close>

fun to_json_children :: "(string \<times> bool \<times> json) list \<Rightarrow> (string \<times> json) list \<Rightarrow> (string \<times> json) list" where
  "to_json_children [] out = out"
| "to_json_children ((k, tr, j) # cs) out =
     to_json_children cs (if \<not> tr then setitem out k j else out)"

fun to_json :: "(string list \<Rightarrow> string list) \<Rightarrow> node \<Rightarrow> json" where
  "to_json od (Node nm p hl sa tr v ch cf at su st rc) =
     py_dict od
       (to_json_children
          (dict_items od (map (\<lambda>(k, c). (k, transient c, to_json od c)) ch))
          (dict_update (dict_update [] cf) at))"

text \<open>
  \<open>Node.from_json(obj, root, name, link)\<close>; \<open>link_given\<close> says that the \<open>link\<close>
  argument is not \<open>None\<close>. The second function is the loop over the keys of \<open>obj\<close>.
\<close>

fun from_json ::
    "env \<Rightarrow> json \<Rightarrow> node option \<Rightarrow> string option \<Rightarrow> bool \<Rightarrow> dslink \<Rightarrow> error + (dslink \<times> node)"
  and from_json_props ::
    "env \<Rightarrow> (string \<times> json) list \<Rightarrow> dslink \<Rightarrow> node \<Rightarrow> error + (dslink \<times> node)" where
  "from_json e obj root nm link_given l =
     (case Node_init nm root False of
        Inl err \<Rightarrow> Inl err
      | Inr node0 \<Rightarrow>
          (let node = (if link_given then with_has_link True node0 else node0)
           in case obj of
                JObj props \<Rightarrow> from_json_props e props l node
              | _ \<Rightarrow> Inr (l, node)))"
| "from_json_props e [] l node = Inr (l, node)"
| "from_json_props e ((prop, v) # props) l node =
     (case
        (if prefix ''$'' prop then
           (if prop = ''$type'' then set_type e v l node else set_config e prop v l node)
         else if prefix ''@'' prop then set_attribute e prop v l node
         else
           (case from_json e v (Some node) (Some prop) False l of
              Inl err \<Rightarrow> Inl err
            | Inr (l1, child) \<Rightarrow> add_child e child l1 node))
      of
        Inl err \<Rightarrow> Inl err
      | Inr (l', node') \<Rightarrow> from_json_props e props l' node')"

section \<open>Session identity and the connect URL\<close>

text \<open>
  \<open>str.replace(old, new)\<close>: every occurrence, found from the left without overlap.
\<close>

function str_replace :: "string \<Rightarrow> string \<Rightarrow> string \<Rightarrow> string" where
  "str_replace old new [] = (if old = [] then new else [])"
| "str_replace old new (c # cs) =
     (if old = [] then new @ c # str_replace old new cs
      else if prefix old (c # cs) then new @ str_replace old new (drop (length old) (c # cs))
      else c # str_replace old new cs)"
  by pat_completeness auto
termination
  by (relation "measure (\<lambda>(old, new, s). length s)") auto

text \<open>\<open>base64.urlsafe_b64encode\<close> (RFC 4648, section 5), on a string of bytes.\<close>

definition b64_alphabet :: string where
  "b64_alphabet = ''ABCDEFGHIJKLMNOPQRSTUVWXYZabcdefghijklmnopqrstuvwxyz0123456789-_''"

definition b64_char :: "nat \<Rightarrow> char" where
  "b64_char i = b64_alphabet ! i"

fun urlsafe_b64encode :: "string \<Rightarrow> string" where
  "urlsafe_b64encode [] = []"
| "urlsafe_b64encode [a] =
     [b64_char (of_char a div 4), b64_char (of_char a mod 4 * 16), CHR ''='', CHR ''='']"
| "urlsafe_b64encode [a, b] =
     [b64_char (of_char a div 4), b64_char (of_char a mod 4 * 16 + of_char b div 16),
      b64_char (of_char b mod 16 * 4), CHR ''='']"
| "urlsafe_b64encode (a # b # c # rest) =
     [b64_char (of_char a div 4), b64_char (of_char a mod 4 * 16 + of_char b div 16),
      b64_char (of_char b mod 16 * 4 + of_char c div 64), b64_char (of_char c mod 64)]
     @ urlsafe_b64encode rest"

text \<open>
  The fields of \<open>DSLink\<close> and of its configuration that \<open>get_auth\<close> and \<open>get_url\<close>
  read, once the handshake has stored the broker's salt and the shared secret:
  \<open>salt\<close> is \<open>str(self.server_config["salt"])\<close> and \<open>token_hash\<close> is the result of
  \<open>self.config.token_hash(self.dsid, self.config.token)\<close>.
\<close>

record session =
  broker :: string
  dsid :: string
  needs_auth :: bool
  salt :: string
  shared_secret :: string
  token_hash :: "string option"

text \<open>\<open>DSLink.get_auth()\<close>; \<open>sha256\<close> is \<open>hashlib.sha256(...).digest()\<close>.\<close>

definition get_auth :: "(string \<Rightarrow> string) \<Rightarrow> session \<Rightarrow> string" where
  "get_auth sha256 s =
     str_replace ''='' '''' (urlsafe_b64encode (sha256 (salt s @ shared_secret s)))"

text \<open>
  \<open>DSLink.get_url()\<close>; \<open>urlparse\<close> is the function of Python's library and \<open>port\<close>
  the attribute of its result.
\<close>

definition get_url ::
  "(string \<Rightarrow> string) \<Rightarrow> (string \<Rightarrow> 'u) \<Rightarrow> ('u \<Rightarrow> nat option) \<Rightarrow> session \<Rightarrow> string \<times> 'u \<times> nat" where
  "get_url sha256 urlparse port s =
     (let websocket_uri =
            str_replace ''http'' ''ws'' (take (length (broker s) - 5) (broker s)) @ ''/ws?dsId='' @ dsid s;
          websocket_uri =
            (if needs_auth s then websocket_uri @ ''&auth='' @ get_auth sha256 s else websocket_uri);
          websocket_uri =
            (case token_hash s of None \<Rightarrow> websocket_uri | Some token \<Rightarrow> websocket_uri @ token);
          url = urlparse websocket_uri
      in (websocket_uri, url, (case port url of None \<Rightarrow> 80 | Some p \<Rightarrow> p)))"

section \<open>The token and the connect URL in the spec's words\<close>

text \<open>
  ``With \<open>=\<close> padding characters stripped'': the padding is the run of \<open>=\<close> at the end.
\<close>

definition strip_padding :: "string \<Rightarrow> string" where
  "strip_padding s = rev (dropWhile (\<lambda>c. c = CHR ''='') (rev s))"

text \<open>
  ``Take the broker's base address, strip its trailing path segment, rewrite the scheme
  http to ws (and https to wss), append \<open>?dsId=<deviceId>\<close>. If authentication is
  required, append \<open>&auth=<token>\<close>.''
\<close>

definition strip_trailing_segment :: "string \<Rightarrow> string" where
  "strip_trailing_segment b = rev (drop 1 (dropWhile (\<lambda>c. c \<noteq> CHR ''/'') (rev b)))"

definition rewrite_scheme :: "string \<Rightarrow> string" where
  "rewrite_scheme u =
     (if prefix ''https'' u then ''wss'' @ drop 5 u
      else if prefix ''http'' u then ''ws'' @ drop 4 u
      else u)"

definition spec_connect_url :: "string \<Rightarrow> string \<Rightarrow> bool \<Rightarrow> string \<Rightarrow> string" where
  "spec_connect_url b d auth token =
     rewrite_scheme (strip_trailing_segment b) @ ''?dsId='' @ d @ (if auth then ''&auth='' @ token else [])"

text \<open>
  ``Parse the result to recover an explicit port, defaulting to port 80 when the URL
  specifies none.'' The authority of a URL stands between the \<open>//\<close> that follows the
  scheme and the next \<open>/\<close>, \<open>?\<close> or \<open>#\<close>; user information, if any, ends with the
  last \<open>@\<close>; the URL specifies a port when a colon and a decimal number end what
  remains.
\<close>

fun after_slashes :: "string \<Rightarrow> string option" where
  "after_slashes (a # b # cs) =
     (if a = CHR ''/'' \<and> b = CHR ''/'' then Some cs else after_slashes (b # cs))"
| "after_slashes cs = None"

definition authority :: "string \<Rightarrow> string option" where
  "authority u = map_option (takeWhile (\<lambda>c. c \<notin> set ''/?#'')) (after_slashes u)"

definition decimal :: "string \<Rightarrow> nat option" where
  "decimal ds =
     (if ds \<noteq> [] \<and> list_all (\<lambda>c. c \<in> set ''0123456789'') ds
      then Some (foldl (\<lambda>n c. 10 * n + (of_char c - 48)) 0 ds)
      else None)"

definition explicit_port :: "string \<Rightarrow> nat option" where
  "explicit_port u =
     (case authority u of
        None \<Rightarrow> None
      | Some a \<Rightarrow>
          (let hostport = rev (takeWhile (\<lambda>c. c \<noteq> CHR ''@'') (rev a))
           in if CHR '':'' \<in> set hostport
              then decimal (rev (takeWhile (\<lambda>c. c \<noteq> CHR '':'') (rev hostport)))
              else None))"

section \<open>The round trip in the spec's words\<close>

text \<open>
  The data model of a node: \<open>config\<close>, \<open>attributes\<close> and \<open>children\<close> are dicts (their
  keys are distinct), config keys begin with \<open>$\<close> and attribute keys with \<open>@\<close>, and the
  name of a child begins with neither. The constructor puts \<open>$is\<close> into every config.
  Transient children are outside the serialized tree and are not constrained.
\<close>

fun well_formed :: "node \<Rightarrow> bool" where
  "well_formed (Node nm p hl sa tr v ch cf at su st rc) =
     (distinct (map fst cf) \<and> list_all (\<lambda>k. prefix ''$'' k) (map fst cf) \<and> ''$is'' \<in> set (map fst cf) \<and>
      distinct (map fst at) \<and> list_all (\<lambda>k. prefix ''@'' k) (map fst at) \<and>
      distinct (map fst ch) \<and>
      list_all (\<lambda>(k, c). \<not> prefix ''$'' k \<and> \<not> prefix ''@'' k \<and> (transient c \<or> well_formed c)) ch)"

text \<open>
  \<open>reproduces m n\<close>: \<open>m\<close> has the config entries and the attribute entries of \<open>n\<close>, its
  children are named as the children of \<open>n\<close> that are not transient, and each of them
  reproduces the child of \<open>n\<close> with that name.
\<close>

fun reproduces :: "node \<Rightarrow> node \<Rightarrow> bool" where
  "reproduces m (Node nm p hl sa tr v ch cf at su st rc) =
     (mset (config m) = mset cf \<and> mset (attributes m) = mset at \<and>
      mset (map fst (children m)) = mset (map fst (filter (\<lambda>(k, c). \<not> transient c) ch)) \<and>
      list_all
        (\<lambda>(k, c). transient c \<or>
           (case map_of (children m) k of None \<Rightarrow> False | Some c' \<Rightarrow> reproduces c' c))
        ch)"

text \<open>
  The dict \<open>out\<close> that \<open>to_json\<close> builds for a node of the data model, in the order of
  its assignments.
\<close>

definition members :: "(string list \<Rightarrow> string list) \<Rightarrow> node \<Rightarrow> (string \<times> json) list" where
  "members od n =
     config n @ attributes n
       @ map (\<lambda>(k, c). (k, to_json od c)) (filter (\<lambda>(k, c). \<not> transient c) (dict_items od (children n)))"

section \<open>The structural batch in the spec's words\<close>

text \<open>
  A \<open>[key, value]\<close> pair, the entry of a live child, the batch without and with the
  tombstones, the response that wraps a batch for a stream id, and the node after
  \<open>remove_child\<close> has moved the child \<open>c\<close> named \<open>nm\<close> to the tombstone list.
\<close>

definition entry :: "string \<times> json \<Rightarrow> json" where
  "entry = (\<lambda>(k, v). JArr [JStr k, v])"

definition child_entry :: "(string list \<Rightarrow> string list) \<Rightarrow> string \<times> node \<Rightarrow> json" where
  "child_entry od = (\<lambda>(k, c). JArr [JStr (name c), child_descriptor od c])"

definition live_batch :: "(string list \<Rightarrow> string list) \<Rightarrow> node \<Rightarrow> json list" where
  "live_batch od n =
     map entry (config n) @ map entry (attributes n) @ map (child_entry od) (dict_items od (children n))"

definition structural_batch :: "(string list \<Rightarrow> string list) \<Rightarrow> node \<Rightarrow> json list" where
  "structural_batch od n = live_batch od n @ map (tombstone od) (removed_children n)"

definition response :: "env \<Rightarrow> int \<Rightarrow> json list \<Rightarrow> json" where
  "response e s batch =
     get_stream e (py_dict (ord e) [(''rid'', JInt s), (''stream'', JStr ''open''), (''updates'', JArr batch)])"

definition moved :: "string \<Rightarrow> node \<Rightarrow> node \<Rightarrow> node" where
  "moved nm c n =
     with_removed_children (removed_children n @ [c]) (with_children (AList.delete nm (children n)) n)"

section \<open>Nodes and collaborators used as concrete inputs\<close>

text \<open>A childless node and a node with children, both attached to the link.\<close>

definition leaf :: "string \<Rightarrow> string \<Rightarrow> node" where
  "leaf nm p = Node nm p True False False Value_init [] [(''$is'', JStr ''node'')] [] [] [] []"

definition branch :: "string \<Rightarrow> string \<Rightarrow> (string \<times> node) list \<Rightarrow> node" where
  "branch nm p cs = Node nm p True False False Value_init cs [(''$is'', JStr ''node'')] [] [] [] []"

text \<open>
  An environment whose dicts iterate in reverse insertion order, whose responses are the
  response dicts themselves and which knows no profile; a link with a transport attached;
  a node with two config entries, one attribute, two children (one holding a value) and
  two pending removals; a node with one child, the given stream ids and pending removals;
  that node without its child; and a child that holds no value and whose config has got
  the key \<open>value\<close> by \<open>set_config("value", 3)\<close>.
\<close>

definition plain_env :: env where
  "plain_env = \<lparr>ord = rev, get_stream = (\<lambda>response. response), set_value_callback = None,
                 run_set_callback = (\<lambda>profile v l. Inl ValueError)\<rparr>"

definition idle_link :: dslink where
  "idle_link = \<lparr>active = False, nodes_changed = False, wsp = Some []\<rparr>"

definition device :: node where
  "device = Node ''dev'' ''/dev'' True False False Value_init
     [(''t'', Node ''t'' ''/dev/t'' True False False
                \<lparr>assigned = Some (JInt 21, ''2026-01-01T00:00:00''), vtype = None\<rparr>
                [] [(''$is'', JStr ''node'')] [] [] [] []),
      (''u'', leaf ''u'' ''/dev/u'')]
     [(''$is'', JStr ''node''), (''$name'', JStr ''Device'')]
     [(''@unit'', JStr ''C'')]
     [] [] [leaf ''old'' ''/dev/old'', leaf ''gone'' ''/dev/gone'']"

definition watched :: "int list \<Rightarrow> node list \<Rightarrow> node" where
  "watched ss rc = Node ''dev'' ''/dev'' True False False Value_init
     [(''u'', leaf ''u'' ''/dev/u'')] [(''$is'', JStr ''node'')] [] [] ss rc"

definition emptied :: "node list \<Rightarrow> node" where
  "emptied rc = Node ''dev'' ''/dev'' True False False Value_init [] [(''$is'', JStr ''node'')] [] [] [] rc"

definition keyed :: node where
  "keyed = Node ''c'' ''/p/c'' True False False Value_init []
             [(''$is'', JStr ''node''), (''value'', JInt 3)] [] [] [] []"

text \<open>
  A node with one value subscriber, with or without a link and standalone or not; and a
  node that holds the attributes \<open>unit\<close> and \<open>@unit\<close> beside the given config.
\<close>

definition subscribed :: "bool \<Rightarrow> bool \<Rightarrow> node" where
  "subscribed hl sa = Node ''t'' ''/t'' hl sa False Value_init [] [(''$is'', JStr ''node'')] [] [1] [] []"

definition tagged :: "(string \<times> json) list \<Rightarrow> node" where
  "tagged cf = Node ''t'' ''/t'' True False False Value_init [] cf
                 [(''unit'', JStr ''K''), (''@unit'', JStr ''K'')] [] [] []"

text \<open>
  A session with the conventional broker address of a local broker, one whose host
  name contains \<open>http\<close>, and a session without authentication for a given broker
  address and token fragment.
\<close>

definition local_session :: "bool \<Rightarrow> session" where
  "local_session auth =
     \<lparr>broker = ''http://localhost:8080/conn'', dsid = ''link-1'', needs_auth = auth,
      salt = ''abc'', shared_secret = ''secret'', token_hash = None\<rparr>"

definition httpd_session :: session where
  "httpd_session =
     \<lparr>broker = ''https://httpd.local/conn'', dsid = ''link-1'', needs_auth = False,
      salt = ''abc'', shared_secret = ''secret'', token_hash = None\<rparr>"

definition session_at :: "string \<Rightarrow> string option \<Rightarrow> session" where
  "session_at b t =
     \<lparr>broker = b, dsid = ''link-1'', needs_auth = False,
      salt = ''abc'', shared_secret = ''secret'', token_hash = t\<rparr>"

text \<open>
  A node of the data model with a child that holds a value and a transient child.
\<close>

definition home :: node where
  "home = Node ''home'' ''/home'' True False False Value_init
     [(''lamp'',
       Node ''lamp'' ''/home/lamp'' True False False
         \<lparr>assigned = Some (JBool True, ''2026-01-01T00:00:00''), vtype = Some (JStr ''bool'')\<rparr>
         [] [(''$is'', JStr ''node''), (''$type'', JStr ''bool'')] [(''@room'', JStr ''hall'')] [] [] []),
      (''tmp'',
       Node ''tmp'' ''/home/tmp'' True False True Value_init [] [(''$is'', JStr ''node'')] [] [] [] [])]
     [(''$is'', JStr ''node''), (''$name'', JStr ''Home'')]
     [(''@floor'', JInt 1)]
     [] [] []"

section \<open>Resolving a path\<close>

lemma str_index_error: "str_index s c k = Inl e \<Longrightarrow> e = ValueError"
  by (simp add: str_index_def Let_def split: if_splits)

lemma getitem_error: "getitem d k = Inl e \<Longrightarrow> e = KeyError"
  by (simp add: getitem_def split: option.splits)

lemma get_total: "\<exists>r. get n p = Inr r"
proof (induction n p rule: get.induct)
  case (1 n p)
  show ?case
  proof (cases "p = ''/'' \<or> prefix ''/$'' p \<or> prefix ''/@'' p")
    case True
    then show ?thesis by (subst get.simps) auto
  next
    case False
    show ?thesis
    proof (cases "str_index p CHR ''/'' 2")
      case (Inl e)
      then have "e = ValueError" by (rule str_index_error)
      with Inl False show ?thesis
        by (subst get.simps) (auto simp: getitem_def split: option.splits)
    next
      case (Inr i)
      show ?thesis
      proof (cases "getitem (children n) (take (i - 1) (drop 1 p))")
        case (Inl e)
        then have "e = KeyError" by (rule getitem_error)
        with Inl Inr False show ?thesis
          by (subst get.simps) auto
      next
        case c: (Inr c)
        from False have "p \<noteq> ''/''" "\<not> prefix ''/$'' p" "\<not> prefix ''/@'' p" by auto
        from "1.IH"[OF this Inr c] obtain r where "get c (drop i p) = Inr r" by blast
        with c Inr False show ?thesis
          by (subst get.simps) auto
      qed
    qed
  qed
qed

lemma get_self:
  "p = ''/'' \<or> prefix ''/$'' p \<or> prefix ''/@'' p \<Longrightarrow> get n p = Inr (Some n)"
  by (subst get.simps) auto

lemma get_descend:
  assumes "\<not> (p = ''/'' \<or> prefix ''/$'' p \<or> prefix ''/@'' p)"
  shows "get n p =
     (case str_index p CHR ''/'' 2 of
        Inr i \<Rightarrow>
          (case map_of (children n) (take (i - 1) (drop 1 p)) of
             None \<Rightarrow> Inr None
           | Some c \<Rightarrow> get c (drop i p))
      | Inl err \<Rightarrow> Inr (map_of (children n) (drop 1 p)))"
proof (cases "str_index p CHR ''/'' 2")
  case (Inl e)
  then have "e = ValueError" by (rule str_index_error)
  with Inl assms show ?thesis
    by (subst get.simps) (auto simp: getitem_def split: option.splits)
next
  case (Inr i)
  show ?thesis
  proof (cases "map_of (children n) (take (i - 1) (drop 1 p))")
    case None
    with Inr assms show ?thesis
      by (subst get.simps) (auto simp: getitem_def)
  next
    case (Some c)
    obtain r where r: "get c (drop i p) = Inr r" using get_total by blast
    with Inr Some assms show ?thesis
      by (subst get.simps) (auto simp: getitem_def)
  qed
qed

text \<open>
  C8. \<open>get(p)\<close> returns the node itself when \<open>p\<close> is \<open>"/"\<close> or begins with \<open>"/$"\<close> or
  \<open>"/@"\<close>. Otherwise it looks up the child named by the first segment and recurses into
  it with the rest of the path; a segment that names no child gives the result \<open>None\<close>.
  No call of \<open>get\<close> raises: the \<open>KeyError\<close> of the failed lookup never reaches the caller.
\<close>

theorem get_resolves_or_reports_no_node:
  "(p = ''/'' \<or> prefix ''/$'' p \<or> prefix ''/@'' p \<longrightarrow> get n p = Inr (Some n)) \<and>
   (\<not> (p = ''/'' \<or> prefix ''/$'' p \<or> prefix ''/@'' p) \<longrightarrow>
      get n p =
        (case str_index p CHR ''/'' 2 of
           Inr i \<Rightarrow>
             (case map_of (children n) (take (i - 1) (drop 1 p)) of
                None \<Rightarrow> Inr None
              | Some c \<Rightarrow> get c (drop i p))
         | Inl err \<Rightarrow> Inr (map_of (children n) (drop 1 p)))) \<and>
   (\<forall>err. get n p \<noteq> Inl err)"
proof (intro conjI impI allI)
  assume "p = ''/'' \<or> prefix ''/$'' p \<or> prefix ''/@'' p"
  then show "get n p = Inr (Some n)" by (rule get_self)
next
  assume "\<not> (p = ''/'' \<or> prefix ''/$'' p \<or> prefix ''/@'' p)"
  then show "get n p =
        (case str_index p CHR ''/'' 2 of
           Inr i \<Rightarrow>
             (case map_of (children n) (take (i - 1) (drop 1 p)) of
                None \<Rightarrow> Inr None
              | Some c \<Rightarrow> get c (drop i p))
         | Inl err \<Rightarrow> Inr (map_of (children n) (drop 1 p)))"
    by (rule get_descend)
next
  fix err
  obtain r where "get n p = Inr r" using get_total by blast
  then show "get n p \<noteq> Inl err" by simp
qed

theorem get_resolves_or_reports_no_node_witness:
  "get (branch '''' ''/'' [(''a'', branch ''a'' ''/a'' [(''b'', leaf ''b'' ''/a/b'')])]) ''/a/b''
     = Inr (Some (leaf ''b'' ''/a/b'')) \<and>
   get (branch '''' ''/'' [(''a'', branch ''a'' ''/a'' [(''b'', leaf ''b'' ''/a/b'')])]) ''/a/x''
     = Inr None \<and>
   get (branch '''' ''/'' [(''a'', branch ''a'' ''/a'' [(''b'', leaf ''b'' ''/a/b'')])]) ''/x/b''
     = Inr None \<and>
   get (leaf ''b'' ''/a/b'') ''/@unit'' = Inr (Some (leaf ''b'' ''/a/b''))"
  using get_resolves_or_reports_no_node
          [of "''/a/b''" "branch '''' ''/'' [(''a'', branch ''a'' ''/a'' [(''b'', leaf ''b'' ''/a/b'')])]"]
        get_resolves_or_reports_no_node
          [of "''/a/x''" "branch '''' ''/'' [(''a'', branch ''a'' ''/a'' [(''b'', leaf ''b'' ''/a/b'')])]"]
        get_resolves_or_reports_no_node
          [of "''/x/b''" "branch '''' ''/'' [(''a'', branch ''a'' ''/a'' [(''b'', leaf ''b'' ''/a/b'')])]"]
        get_resolves_or_reports_no_node [of "''/b''" "branch ''a'' ''/a'' [(''b'', leaf ''b'' ''/a/b'')]"]
        get_resolves_or_reports_no_node [of "''/x''" "branch ''a'' ''/a'' [(''b'', leaf ''b'' ''/a/b'')]"]
        get_resolves_or_reports_no_node [of "''/@unit''" "leaf ''b'' ''/a/b''"]
  by (simp add: str_index_def branch_def leaf_def)

section \<open>Structural reads\<close>

lemma with_has_link_sel [simp]:
  "name (with_has_link x n) = name n"
  "path (with_has_link x n) = path n"
  "has_link (with_has_link x n) = x"
  "standalone (with_has_link x n) = standalone n"
  "transient (with_has_link x n) = transient n"
  "val (with_has_link x n) = val n"
  "children (with_has_link x n) = children n"
  "config (with_has_link x n) = config n"
  "attributes (with_has_link x n) = attributes n"
  "subscribers (with_has_link x n) = subscribers n"
  "streams (with_has_link x n) = streams n"
  "removed_children (with_has_link x n) = removed_children n"
  by (cases n; simp)+

lemma with_transient_sel [simp]:
  "name (with_transient x n) = name n"
  "path (with_transient x n) = path n"
  "has_link (with_transient x n) = has_link n"
  "standalone (with_transient x n) = standalone n"
  "transient (with_transient x n) = x"
  "val (with_transient x n) = val n"
  "children (with_transient x n) = children n"
  "config (with_transient x n) = config n"
  "attributes (with_transient x n) = attributes n"
  "subscribers (with_transient x n) = subscribers n"
  "streams (with_transient x n) = streams n"
  "removed_children (with_transient x n) = removed_children n"
  by (cases n; simp)+

lemma with_value_sel [simp]:
  "name (with_value x n) = name n"
  "path (with_value x n) = path n"
  "has_link (with_value x n) = has_link n"
  "standalone (with_value x n) = standalone n"
  "transient (with_value x n) = transient n"
  "val (with_value x n) = x"
  "children (with_value x n) = children n"
  "config (with_value x n) = config n"
  "attributes (with_value x n) = attributes n"
  "subscribers (with_value x n) = subscribers n"
  "streams (with_value x n) = streams n"
  "removed_children (with_value x n) = removed_children n"
  by (cases n; simp)+

lemma with_children_sel [simp]:
  "name (with_children x n) = name n"
  "path (with_children x n) = path n"
  "has_link (with_children x n) = has_link n"
  "standalone (with_children x n) = standalone n"
  "transient (with_children x n) = transient n"
  "val (with_children x n) = val n"
  "children (with_children x n) = x"
  "config (with_children x n) = config n"
  "attributes (with_children x n) = attributes n"
  "subscribers (with_children x n) = subscribers n"
  "streams (with_children x n) = streams n"
  "removed_children (with_children x n) = removed_children n"
  by (cases n; simp)+

lemma with_config_sel [simp]:
  "name (with_config x n) = name n"
  "path (with_config x n) = path n"
  "has_link (with_config x n) = has_link n"
  "standalone (with_config x n) = standalone n"
  "transient (with_config x n) = transient n"
  "val (with_config x n) = val n"
  "children (with_config x n) = children n"
  "config (with_config x n) = x"
  "attributes (with_config x n) = attributes n"
  "subscribers (with_config x n) = subscribers n"
  "streams (with_config x n) = streams n"
  "removed_children (with_config x n) = removed_children n"
  by (cases n; simp)+

lemma with_attributes_sel [simp]:
  "name (with_attributes x n) = name n"
  "path (with_attributes x n) = path n"
  "has_link (with_attributes x n) = has_link n"
  "standalone (with_attributes x n) = standalone n"
  "transient (with_attributes x n) = transient n"
  "val (with_attributes x n) = val n"
  "children (with_attributes x n) = children n"
  "config (with_attributes x n) = config n"
  "attributes (with_attributes x n) = x"
  "subscribers (with_attributes x n) = subscribers n"
  "streams (with_attributes x n) = streams n"
  "removed_children (with_attributes x n) = removed_children n"
  by (cases n; simp)+

lemma with_subscribers_sel [simp]:
  "name (with_subscribers x n) = name n"
  "path (with_subscribers x n) = path n"
  "has_link (with_subscribers x n) = has_link n"
  "standalone (with_subscribers x n) = standalone n"
  "transient (with_subscribers x n) = transient n"
  "val (with_subscribers x n) = val n"
  "children (with_subscribers x n) = children n"
  "config (with_subscribers x n) = config n"
  "attributes (with_subscribers x n) = attributes n"
  "subscribers (with_subscribers x n) = x"
  "streams (with_subscribers x n) = streams n"
  "removed_children (with_subscribers x n) = removed_children n"
  by (cases n; simp)+

lemma with_removed_children_sel [simp]:
  "name (with_removed_children x n) = name n"
  "path (with_removed_children x n) = path n"
  "has_link (with_removed_children x n) = has_link n"
  "standalone (with_removed_children x n) = standalone n"
  "transient (with_removed_children x n) = transient n"
  "val (with_removed_children x n) = val n"
  "children (with_removed_children x n) = children n"
  "config (with_removed_children x n) = config n"
  "attributes (with_removed_children x n) = attributes n"
  "subscribers (with_removed_children x n) = subscribers n"
  "streams (with_removed_children x n) = streams n"
  "removed_children (with_removed_children x n) = x"
  by (cases n; simp)+

lemma with_removed_children_same [simp]: "removed_children n = [] \<Longrightarrow> with_removed_children [] n = n"
  by (cases n) simp

lemma stream_entries_eq: "stream_entries d out = out @ map entry d"
  by (induction d out rule: stream_entries.induct) (simp_all add: entry_def)

lemma stream_children_eq: "stream_children od cs out = out @ map (child_entry od) cs"
  by (induction od cs out rule: stream_children.induct) (simp_all add: child_entry_def)

lemma stream_removed_eq:
  "stream_removed od hl rc out l =
     (if rc = [] then Inr (out, l)
      else if \<not> hl then Inl AttributeError
      else Inr (out @ map (tombstone od) rc, l\<lparr>nodes_changed := True\<rparr>))"
  by (induction od hl rc out l rule: stream_removed.induct) simp_all

lemma stream_eq:
  "stream e l n =
     (if removed_children n = [] then Inr (live_batch (ord e) n, l, n)
      else if \<not> has_link n then Inl AttributeError
      else Inr (structural_batch (ord e) n, l\<lparr>nodes_changed := True\<rparr>, with_removed_children [] n))"
  by (simp add: stream_def stream_entries_eq stream_children_eq stream_removed_eq
        live_batch_def structural_batch_def)

lemma live_batch_with_removed_children [simp]:
  "live_batch od (with_removed_children rc n) = live_batch od n"
  by (simp add: live_batch_def)

lemma stream_responses_drained:
  "removed_children n = [] \<Longrightarrow>
   stream_responses e ss acc l n = Inr (acc @ map (\<lambda>s. response e s (live_batch (ord e) n)) ss, l, n)"
  by (induction ss arbitrary: acc) (simp_all add: stream_eq response_def)

lemma stream_responses_eq:
  "stream_responses e (s # ss) acc l n =
     (if removed_children n \<noteq> [] \<and> \<not> has_link n then Inl AttributeError
      else Inr (acc @ response e s (structural_batch (ord e) n)
                  # map (\<lambda>s. response e s (live_batch (ord e) n)) ss,
                if removed_children n = [] then l else l\<lparr>nodes_changed := True\<rparr>,
                with_removed_children [] n))"
  by (simp add: stream_eq stream_responses_drained response_def structural_batch_def)

lemma update_subscribers_no_streams: "streams n = [] \<Longrightarrow> update_subscribers e l n = Inr (l, n)"
  by (simp add: update_subscribers_def)

lemma update_subscribers_eq:
  assumes "streams n = s # ss" "has_link n" "wsp l = Some sent"
  shows "update_subscribers e l n =
     Inr (l\<lparr>nodes_changed := (nodes_changed l \<or> removed_children n \<noteq> []),
            wsp := Some (sent @
              [py_dict (ord e)
                 [(''responses'',
                   JArr (response e s (structural_batch (ord e) n)
                         # map (\<lambda>s. response e s (live_batch (ord e) n)) ss))]])\<rparr>,
          with_removed_children [] n)"
  using assms
  by (simp add: update_subscribers_def stream_responses_eq sendMessage_def del: stream_responses.simps)


lemma rearranges_set: "rearranges od \<Longrightarrow> set (od ks) = set ks"
  by (metis rearranges_def set_mset_mset)

lemma map_of_map_filter_keys:
  "map_of (List.map_filter (\<lambda>k. map_option (Pair k) (m k)) ks) k' =
     (if k' \<in> set ks then m k' else None)"
  by (induction ks) (auto simp: List.map_filter_simps split: option.splits)

lemma map_of_dict_items:
  assumes "rearranges od"
  shows "map_of (dict_items od d) = map_of d"
proof
  fix k
  have keys: "set (od (map fst d)) = fst ` set d" using rearranges_set[OF assms] by simp
  show "map_of (dict_items od d) k = map_of d k"
  proof (cases "k \<in> fst ` set d")
    case True
    then show ?thesis by (simp add: dict_items_def map_of_map_filter_keys keys)
  next
    case False
    then have "map_of d k = None" by (simp add: map_of_eq_None_iff)
    with False show ?thesis by (simp add: dict_items_def map_of_map_filter_keys keys)
  qed
qed

lemma map_filter_as_map:
  "\<forall>k \<in> set ks. f k \<noteq> None \<Longrightarrow> List.map_filter f ks = map (\<lambda>k. the (f k)) ks"
  by (induction ks) (auto simp: List.map_filter_simps split: option.splits)

lemma mset_dict_items:
  assumes "rearranges od" "distinct (map fst d)"
  shows "mset (dict_items od d) = mset d"
proof -
  let ?f = "\<lambda>k. map_option (Pair k) (map_of d k)"
  have keys: "set (od (map fst d)) = fst ` set d" using rearranges_set[OF assms(1)] by simp
  have "\<forall>k \<in> set (od (map fst d)). ?f k \<noteq> None"
    by (auto simp: keys map_of_eq_None_iff)
  then have "dict_items od d = map (\<lambda>k. the (?f k)) (od (map fst d))"
    unfolding dict_items_def by (rule map_filter_as_map)
  then have "mset (dict_items od d) = image_mset (\<lambda>k. the (?f k)) (mset (od (map fst d)))"
    by simp
  also have "\<dots> = image_mset (\<lambda>k. the (?f k)) (mset (map fst d))"
    using assms(1) by (simp add: rearranges_def)
  also have "\<dots> = mset (map (\<lambda>kv. the (?f (fst kv))) d)"
    by (simp add: image_mset.compositionality comp_def)
  also have "map (\<lambda>kv. the (?f (fst kv))) d = d"
    using assms(2) by (intro map_idI) auto
  finally show ?thesis .
qed

lemma map_of_dict_update:
  "distinct (map fst e) \<Longrightarrow> map_of (dict_update d e) = map_of d ++ map_of e"
proof -
  have "distinct (map fst e) \<Longrightarrow>
        map_of (fold (\<lambda>(k, v) acc. AList.update k v acc) e d) = map_of d ++ map_of e"
    for d :: "(string \<times> 'a) list"
  proof (induction e arbitrary: d)
    case Nil
    show ?case by simp
  next
    case (Cons kv e)
    obtain k v where kv: "kv = (k, v)" by (cases kv)
    from Cons.prems have fresh: "map_of e k = None" and dist: "distinct (map fst e)"
      by (auto simp: kv map_of_eq_None_iff)
    have "map_of (fold (\<lambda>(k, v) acc. AList.update k v acc) (kv # e) d) = map_of (AList.update k v d) ++ map_of e"
      using Cons.IH[OF dist, of "AList.update k v d"] by (simp add: kv)
    also have "\<dots> = map_of d ++ map_of (kv # e)"
      using fresh by (intro ext) (auto simp: kv update_conv' map_add_def split: option.splits)
    finally show ?case .
  qed
  then show "distinct (map fst e) \<Longrightarrow> map_of (dict_update d e) = map_of d ++ map_of e"
    by (simp add: dict_update_def setitem_def)
qed

lemma distinct_child_val: "distinct (map fst (child_val c))"
  by (simp add: child_val_def split: option.splits)

lemma child_descriptor_members:
  assumes "rearranges od" "distinct (map fst (attributes c))"
  shows "\<exists>members. child_descriptor od c = JObj members \<and>
           map_of members = map_of (config c) ++ map_of (attributes c) ++ map_of (child_val c)"
  by (simp add: child_descriptor_def py_dict_def map_of_dict_items[OF assms(1)]
        map_of_dict_update assms(2) distinct_child_val)


lemma tombstone_members:
  assumes "rearranges od"
  shows "\<exists>ms. tombstone od c = JObj ms \<and>
           mset ms = {#(''name'', JStr (name c)), (''change'', JStr ''remove'')#}"
  using mset_dict_items[OF assms, of "[(''name'', JStr (name c)), (''change'', JStr ''remove'')]"]
  by (simp add: tombstone_def py_dict_def)

text \<open>
  C3 (as amended). A structural read returns, in this order, one \<open>[key, value]\<close> pair
  per config entry in insertion order, one per attribute entry, one entry per live child
  and one tombstone per removed child in removal order, and it empties the tombstone list
  (it raises only when a removal is pending on a node without a link). When the dict
  order only rearranges, every live child has exactly one entry, and the tombstone of a
  removed child is the object with the two members \<open>name\<close>, the name of that child, and
  \<open>change\<close>, the string \<open>remove\<close>. The descriptor of a child is its config overlaid by
  its attributes, overlaid by \<open>value\<close> and \<open>ts\<close> when the child's value holds a value
  and by nothing otherwise. So a descriptor has the key \<open>value\<close> (or \<open>ts\<close>) exactly
  when the child's value holds a value, unless the child's config or attributes hold a
  key of that name.
\<close>

theorem stream_batch_order:
  "(removed_children n = [] \<or> has_link n \<longrightarrow>
      stream e l n =
        Inr (map entry (config n) @ map entry (attributes n)
               @ map (child_entry (ord e)) (dict_items (ord e) (children n))
               @ map (tombstone (ord e)) (removed_children n),
             l\<lparr>nodes_changed := (nodes_changed l \<or> removed_children n \<noteq> [])\<rparr>,
             with_removed_children [] n)) \<and>
   (rearranges (ord e) \<and> distinct (map fst (children n)) \<longrightarrow>
      mset (dict_items (ord e) (children n)) = mset (children n)) \<and>
   (rearranges (ord e) \<and> distinct (map fst (attributes c)) \<longrightarrow>
      (\<exists>members. child_descriptor (ord e) c = JObj members \<and>
         (has_value (val c) \<longrightarrow>
            (\<exists>v ts. assigned (val c) = Some (v, ts) \<and>
               map_of members =
                 (map_of (config c) ++ map_of (attributes c))(''value'' \<mapsto> v, ''ts'' \<mapsto> JStr ts))) \<and>
         (\<not> has_value (val c) \<longrightarrow>
            map_of members = map_of (config c) ++ map_of (attributes c)) \<and>
         (''value'' \<notin> fst ` set (config c) \<union> fst ` set (attributes c) \<longrightarrow>
            (''value'' \<in> fst ` set members \<longleftrightarrow> has_value (val c))) \<and>
         (''ts'' \<notin> fst ` set (config c) \<union> fst ` set (attributes c) \<longrightarrow>
            (''ts'' \<in> fst ` set members \<longleftrightarrow> has_value (val c))))) \<and>
   (rearranges (ord e) \<longrightarrow>
      (\<exists>ms. tombstone (ord e) r = JObj ms \<and>
         mset ms = {#(''name'', JStr (name r)), (''change'', JStr ''remove'')#}))"
proof (intro conjI impI)
  assume "removed_children n = [] \<or> has_link n"
  then show "stream e l n =
        Inr (map entry (config n) @ map entry (attributes n)
               @ map (child_entry (ord e)) (dict_items (ord e) (children n))
               @ map (tombstone (ord e)) (removed_children n),
             l\<lparr>nodes_changed := (nodes_changed l \<or> removed_children n \<noteq> [])\<rparr>,
             with_removed_children [] n)"
    by (auto simp: stream_eq live_batch_def structural_batch_def)
next
  assume "rearranges (ord e) \<and> distinct (map fst (children n))"
  then show "mset (dict_items (ord e) (children n)) = mset (children n)"
    by (simp add: mset_dict_items)
next
  assume "rearranges (ord e)"
  then show "\<exists>ms. tombstone (ord e) r = JObj ms \<and>
         mset ms = {#(''name'', JStr (name r)), (''change'', JStr ''remove'')#}"
    by (rule tombstone_members)
next
  assume a: "rearranges (ord e) \<and> distinct (map fst (attributes c))"
  then obtain members where m: "child_descriptor (ord e) c = JObj members"
    and mo: "map_of members = map_of (config c) ++ map_of (attributes c) ++ map_of (child_val c)"
    using child_descriptor_members by blast
  have dom: "k \<in> fst ` set members \<longleftrightarrow> map_of members k \<noteq> None" for k
    by (simp add: map_of_eq_None_iff)
  have cfg: "k \<notin> fst ` set (config c) \<union> fst ` set (attributes c) \<Longrightarrow>
             (map_of (config c) ++ map_of (attributes c)) k = None" for k
    by (simp add: map_add_def map_of_eq_None_iff split: option.splits)
  show "\<exists>members. child_descriptor (ord e) c = JObj members \<and>
         (has_value (val c) \<longrightarrow>
            (\<exists>v ts. assigned (val c) = Some (v, ts) \<and>
               map_of members =
                 (map_of (config c) ++ map_of (attributes c))(''value'' \<mapsto> v, ''ts'' \<mapsto> JStr ts))) \<and>
         (\<not> has_value (val c) \<longrightarrow>
            map_of members = map_of (config c) ++ map_of (attributes c)) \<and>
         (''value'' \<notin> fst ` set (config c) \<union> fst ` set (attributes c) \<longrightarrow>
            (''value'' \<in> fst ` set members \<longleftrightarrow> has_value (val c))) \<and>
         (''ts'' \<notin> fst ` set (config c) \<union> fst ` set (attributes c) \<longrightarrow>
            (''ts'' \<in> fst ` set members \<longleftrightarrow> has_value (val c)))"
  proof (intro exI[of _ members] conjI impI)
    show "child_descriptor (ord e) c = JObj members" by (rule m)
  next
    assume hv: "has_value (val c)"
    then obtain v ts where vt: "assigned (val c) = Some (v, ts)"
      by (auto simp: has_value_def)
    have "map_of members =
            (map_of (config c) ++ map_of (attributes c))(''value'' \<mapsto> v, ''ts'' \<mapsto> JStr ts)"
      unfolding mo by (rule ext) (simp add: child_val_def hv vt map_add_def)
    with vt show "\<exists>v ts. assigned (val c) = Some (v, ts) \<and>
               map_of members =
                 (map_of (config c) ++ map_of (attributes c))(''value'' \<mapsto> v, ''ts'' \<mapsto> JStr ts)"
      by blast
  next
    assume "\<not> has_value (val c)"
    then show "map_of members = map_of (config c) ++ map_of (attributes c)"
      unfolding mo by (simp add: child_val_def)
  next
    assume "''value'' \<notin> fst ` set (config c) \<union> fst ` set (attributes c)"
    then have "(map_of (config c) ++ map_of (attributes c)) ''value'' = None" by (rule cfg)
    then have "map_of members ''value'' = map_of (child_val c) ''value''"
      by (simp add: mo map_add_def[of _ "map_of (child_val c)"] split: option.splits)
    moreover have "''value'' \<in> fst ` set members \<longleftrightarrow> map_of members ''value'' \<noteq> None"
      by (rule dom)
    ultimately show "''value'' \<in> fst ` set members \<longleftrightarrow> has_value (val c)"
      by (cases "assigned (val c)") (auto simp: child_val_def has_value_def)
  next
    assume "''ts'' \<notin> fst ` set (config c) \<union> fst ` set (attributes c)"
    then have "(map_of (config c) ++ map_of (attributes c)) ''ts'' = None" by (rule cfg)
    then have "map_of members ''ts'' = map_of (child_val c) ''ts''"
      by (simp add: mo map_add_def[of _ "map_of (child_val c)"] split: option.splits)
    moreover have "''ts'' \<in> fst ` set members \<longleftrightarrow> map_of members ''ts'' \<noteq> None"
      by (rule dom)
    ultimately show "''ts'' \<in> fst ` set members \<longleftrightarrow> has_value (val c)"
      by (cases "assigned (val c)") (auto simp: child_val_def has_value_def)
  qed
qed

theorem stream_batch_order_witness:
  "has_link device \<and> rearranges (ord plain_env) \<and> distinct (map fst (children device)) \<and>
   distinct (map fst (attributes (leaf ''u'' ''/dev/u''))) \<and>
   stream plain_env idle_link device =
     Inr ([JArr [JStr ''$is'', JStr ''node''],
           JArr [JStr ''$name'', JStr ''Device''],
           JArr [JStr ''@unit'', JStr ''C''],
           JArr [JStr ''u'', JObj [(''$is'', JStr ''node'')]],
           JArr [JStr ''t'',
                 JObj [(''ts'', JStr ''2026-01-01T00:00:00''), (''value'', JInt 21),
                       (''$is'', JStr ''node'')]],
           JObj [(''change'', JStr ''remove''), (''name'', JStr ''old'')],
           JObj [(''change'', JStr ''remove''), (''name'', JStr ''gone'')]],
          idle_link\<lparr>nodes_changed := True\<rparr>,
          with_removed_children [] device) \<and>
   mset (dict_items (ord plain_env) (children device)) = mset (children device) \<and>
   tombstone (ord plain_env) (leaf ''gone'' ''/dev/gone'') =
     JObj [(''change'', JStr ''remove''), (''name'', JStr ''gone'')]"
  using stream_batch_order
          [where n = device and e = plain_env and l = idle_link and c = "leaf ''u'' ''/dev/u''"
             and r = "leaf ''gone'' ''/dev/gone''"]
  by (simp add: device_def plain_env_def idle_link_def leaf_def rearranges_def entry_def
        child_entry_def child_descriptor_def child_val_def has_value_def tombstone_def py_dict_def
        dict_items_def dict_update_def setitem_def List.map_filter_simps Value_init_def)

text \<open>
  The claim as stated fails for a child whose config holds the key \<open>value\<close>:
  \<open>set_config("value", 3)\<close> puts it there, the child's value holds no value, and the
  descriptor in the batch of the parent has the key \<open>value\<close> all the same.
\<close>

theorem stream_value_key_without_value_counterexample:
  "set_config plain_env ''value'' (JInt 3) idle_link (leaf ''c'' ''/p/c'') =
     Inr (idle_link\<lparr>nodes_changed := True\<rparr>, keyed) \<and>
   \<not> has_value (val keyed) \<and>
   child_descriptor (ord plain_env) keyed = JObj [(''value'', JInt 3), (''$is'', JStr ''node'')] \<and>
   stream plain_env idle_link (branch ''p'' ''/p'' [(''c'', keyed)]) =
     Inr ([JArr [JStr ''$is'', JStr ''node''],
           JArr [JStr ''c'', JObj [(''value'', JInt 3), (''$is'', JStr ''node'')]]],
          idle_link,
          branch ''p'' ''/p'' [(''c'', keyed)])"
  by (simp add: set_config_def update_subscribers_def stream_def keyed_def leaf_def branch_def
        plain_env_def idle_link_def child_descriptor_def child_val_def has_value_def py_dict_def
        dict_items_def dict_update_def setitem_def List.map_filter_simps Value_init_def)

text \<open>
  C10. With two or more open stream ids, one structural notification reads the node once
  per stream id and sends one message: the response for the first stream id carries the
  live entries followed by the tombstones, the responses for all later stream ids carry
  the live entries only, and the tombstone list is empty afterwards.
\<close>

theorem update_subscribers_drains_once:
  assumes "streams n = s1 # s2 # ss" and "has_link n" and "wsp l = Some sent"
  shows "update_subscribers e l n =
     Inr (l\<lparr>nodes_changed := (nodes_changed l \<or> removed_children n \<noteq> []),
            wsp := Some (sent @
              [py_dict (ord e)
                 [(''responses'',
                   JArr (response e s1
                           (live_batch (ord e) n @ map (tombstone (ord e)) (removed_children n))
                         # map (\<lambda>s. response e s (live_batch (ord e) n)) (s2 # ss)))]])\<rparr>,
          with_removed_children [] n)"
  using update_subscribers_eq[OF assms] by (simp add: structural_batch_def)

theorem update_subscribers_drains_once_witness:
  "streams (watched [7, 9] [leaf ''old'' ''/dev/old'']) = [7, 9] \<and>
   has_link (watched [7, 9] [leaf ''old'' ''/dev/old'']) \<and>
   wsp idle_link = Some [] \<and>
   update_subscribers plain_env idle_link (watched [7, 9] [leaf ''old'' ''/dev/old'']) =
     Inr (\<lparr>active = False, nodes_changed = True,
            wsp = Some
              [JObj
                 [(''responses'',
                   JArr
                     [JObj
                        [(''updates'',
                          JArr
                            [JArr [JStr ''$is'', JStr ''node''],
                             JArr [JStr ''u'', JObj [(''$is'', JStr ''node'')]],
                             JObj [(''change'', JStr ''remove''), (''name'', JStr ''old'')]]),
                         (''stream'', JStr ''open''), (''rid'', JInt 7)],
                      JObj
                        [(''updates'',
                          JArr
                            [JArr [JStr ''$is'', JStr ''node''],
                             JArr [JStr ''u'', JObj [(''$is'', JStr ''node'')]]]),
                         (''stream'', JStr ''open''), (''rid'', JInt 9)]])]]\<rparr>,
          watched [7, 9] [])"
  using update_subscribers_drains_once
          [of "watched [7, 9] [leaf ''old'' ''/dev/old'']" 7 9 "[]" idle_link "[]" plain_env]
  by (simp add: watched_def plain_env_def idle_link_def leaf_def response_def live_batch_def
        entry_def child_entry_def child_descriptor_def child_val_def has_value_def tombstone_def
        py_dict_def dict_items_def dict_update_def setitem_def List.map_filter_simps Value_init_def)

lemma tombstone_name:
  assumes "rearranges od" "tombstone od r = tombstone od c"
  shows "name r = name c"
proof -
  have "map_of (dict_items od [(''name'', JStr (name r)), (''change'', JStr ''remove'')]) ''name''
        = map_of (dict_items od [(''name'', JStr (name c)), (''change'', JStr ''remove'')]) ''name''"
    using assms(2) by (simp add: tombstone_def py_dict_def)
  then show ?thesis by (simp add: map_of_dict_items[OF assms(1)])
qed

lemma tombstone_not_live: "tombstone od c \<notin> set (live_batch od n)"
  by (auto simp: live_batch_def tombstone_def py_dict_def entry_def child_entry_def)

lemma tombstone_eq_iff:
  assumes "rearranges od"
  shows "tombstone od r = tombstone od c \<longleftrightarrow> name r = name c"
  using tombstone_name[OF assms] by (auto simp: tombstone_def)

lemma count_tombstones:
  assumes "rearranges od"
  shows "count_list (map (tombstone od) rs) (tombstone od c) =
           length (filter (\<lambda>r. name r = name c) rs)"
  by (induction rs) (simp_all add: tombstone_eq_iff[OF assms])

lemma count_live: "count_list (live_batch od n) (tombstone od c) = 0"
  using tombstone_not_live by (simp add: count_list_0_iff)

text \<open>
  C4 (as amended). \<open>remove_child(name)\<close> on a name that is not a child returns \<open>False\<close>
  and leaves the node and the link as they were. On a child, the child leaves
  \<open>children\<close> and joins the end of \<open>removed_children\<close>. The next structural read (made
  by \<open>remove_child\<close> itself for the first open stream id, or the next call of \<open>stream\<close>
  when no stream is open) ends with one tombstone per pending removal, the last of them
  that child's, and empties the list; the read after it reports the live entries only.
  When the dict order only rearranges, the tombstone of the child is the object with the
  members \<open>name\<close>, the name of the child, and \<open>change\<close>, the string \<open>remove\<close>; it is no
  live entry; and the batch of the next read holds it once, and once more for every
  removal of a child of the same name that was pending already: exactly once when there
  was none.
\<close>

theorem remove_child_tombstone:
  "(map_of (children n) nm = None \<longrightarrow> remove_child e nm l n = Inr (False, l, n)) \<and>
   (map_of (children n) nm = Some c \<and> streams n = [] \<longrightarrow>
      remove_child e nm l n = Inr (True, l, moved nm c n)) \<and>
   (map_of (children n) nm = Some c \<and> streams n = s # ss \<and> has_link n \<and> wsp l = Some sent \<longrightarrow>
      remove_child e nm l n =
        Inr (True,
             l\<lparr>nodes_changed := True,
                wsp := Some (sent @
                  [py_dict (ord e)
                     [(''responses'',
                       JArr (response e s
                               (live_batch (ord e) (moved nm c n)
                                  @ map (tombstone (ord e)) (removed_children n) @ [tombstone (ord e) c])
                             # map (\<lambda>s. response e s (live_batch (ord e) (moved nm c n))) ss))]])\<rparr>,
             with_removed_children [] (moved nm c n))) \<and>
   children (moved nm c n) = AList.delete nm (children n) \<and>
   removed_children (moved nm c n) = removed_children n @ [c] \<and>
   (has_link n \<longrightarrow>
      stream e l' (moved nm c n) =
        Inr (live_batch (ord e) (moved nm c n)
               @ map (tombstone (ord e)) (removed_children n) @ [tombstone (ord e) c],
             l'\<lparr>nodes_changed := True\<rparr>,
             with_removed_children [] (moved nm c n))) \<and>
   stream e l' (with_removed_children [] (moved nm c n)) =
     Inr (live_batch (ord e) (moved nm c n), l', with_removed_children [] (moved nm c n)) \<and>
   tombstone (ord e) c \<notin> set (live_batch (ord e) (moved nm c n)) \<and>
   (rearranges (ord e) \<longrightarrow>
      (\<exists>ms. tombstone (ord e) c = JObj ms \<and>
         mset ms = {#(''name'', JStr (name c)), (''change'', JStr ''remove'')#})) \<and>
   (rearranges (ord e) \<longrightarrow>
      count_list
        (live_batch (ord e) (moved nm c n)
           @ map (tombstone (ord e)) (removed_children n) @ [tombstone (ord e) c])
        (tombstone (ord e) c) =
      Suc (length (filter (\<lambda>r. name r = name c) (removed_children n)))) \<and>
   (rearranges (ord e) \<and> (\<forall>r \<in> set (removed_children n). name r \<noteq> name c) \<longrightarrow>
      count_list
        (live_batch (ord e) (moved nm c n)
           @ map (tombstone (ord e)) (removed_children n) @ [tombstone (ord e) c])
        (tombstone (ord e) c) = 1)"
proof (intro conjI impI)
  assume "map_of (children n) nm = None"
  then show "remove_child e nm l n = Inr (False, l, n)" by (simp add: remove_child_def)
next
  assume "map_of (children n) nm = Some c \<and> streams n = []"
  then show "remove_child e nm l n = Inr (True, l, moved nm c n)"
    by (simp add: remove_child_def moved_def update_subscribers_no_streams)
next
  assume a: "map_of (children n) nm = Some c \<and> streams n = s # ss \<and> has_link n \<and> wsp l = Some sent"
  then have "update_subscribers e l (moved nm c n) =
     Inr (l\<lparr>nodes_changed := True,
            wsp := Some (sent @
              [py_dict (ord e)
                 [(''responses'',
                   JArr (response e s (structural_batch (ord e) (moved nm c n))
                         # map (\<lambda>s. response e s (live_batch (ord e) (moved nm c n))) ss))]])\<rparr>,
          with_removed_children [] (moved nm c n))"
    using update_subscribers_eq[of "moved nm c n" s ss l sent e] by (simp add: moved_def)
  with a show "remove_child e nm l n =
        Inr (True,
             l\<lparr>nodes_changed := True,
                wsp := Some (sent @
                  [py_dict (ord e)
                     [(''responses'',
                       JArr (response e s
                               (live_batch (ord e) (moved nm c n)
                                  @ map (tombstone (ord e)) (removed_children n) @ [tombstone (ord e) c])
                             # map (\<lambda>s. response e s (live_batch (ord e) (moved nm c n))) ss))]])\<rparr>,
             with_removed_children [] (moved nm c n))"
    by (simp add: remove_child_def moved_def structural_batch_def)
next
  show "children (moved nm c n) = AList.delete nm (children n)" by (simp add: moved_def)
next
  show "removed_children (moved nm c n) = removed_children n @ [c]" by (simp add: moved_def)
next
  assume "has_link n"
  then show "stream e l' (moved nm c n) =
        Inr (live_batch (ord e) (moved nm c n)
               @ map (tombstone (ord e)) (removed_children n) @ [tombstone (ord e) c],
             l'\<lparr>nodes_changed := True\<rparr>,
             with_removed_children [] (moved nm c n))"
    by (simp add: stream_eq structural_batch_def moved_def)
next
  show "stream e l' (with_removed_children [] (moved nm c n)) =
     Inr (live_batch (ord e) (moved nm c n), l', with_removed_children [] (moved nm c n))"
    by (simp add: stream_eq)
next
  show "tombstone (ord e) c \<notin> set (live_batch (ord e) (moved nm c n))"
    by (rule tombstone_not_live)
next
  assume "rearranges (ord e)"
  then show "\<exists>ms. tombstone (ord e) c = JObj ms \<and>
         mset ms = {#(''name'', JStr (name c)), (''change'', JStr ''remove'')#}"
    by (rule tombstone_members)
next
  assume r: "rearranges (ord e)"
  show "count_list
        (live_batch (ord e) (moved nm c n)
           @ map (tombstone (ord e)) (removed_children n) @ [tombstone (ord e) c])
        (tombstone (ord e) c) =
      Suc (length (filter (\<lambda>r. name r = name c) (removed_children n)))"
    by (simp add: count_live count_tombstones[OF r])
next
  assume a: "rearranges (ord e) \<and> (\<forall>r \<in> set (removed_children n). name r \<noteq> name c)"
  then have r: "rearranges (ord e)" by simp
  from a have "filter (\<lambda>r. name r = name c) (removed_children n) = []"
    by (simp add: filter_empty_conv)
  then show "count_list
        (live_batch (ord e) (moved nm c n)
           @ map (tombstone (ord e)) (removed_children n) @ [tombstone (ord e) c])
        (tombstone (ord e) c) = 1"
    by (simp add: count_live count_tombstones[OF r])
qed

theorem remove_child_tombstone_witness:
  "map_of (children (watched [] [])) ''zz'' = None \<and>
   remove_child plain_env ''zz'' idle_link (watched [] []) = Inr (False, idle_link, watched [] []) \<and>
   map_of (children (watched [] [])) ''u'' = Some (leaf ''u'' ''/dev/u'') \<and>
   remove_child plain_env ''u'' idle_link (watched [] []) =
     Inr (True, idle_link, emptied [leaf ''u'' ''/dev/u'']) \<and>
   stream plain_env idle_link (emptied [leaf ''u'' ''/dev/u'']) =
     Inr ([JArr [JStr ''$is'', JStr ''node''],
           JObj [(''change'', JStr ''remove''), (''name'', JStr ''u'')]],
          idle_link\<lparr>nodes_changed := True\<rparr>,
          emptied []) \<and>
   stream plain_env (idle_link\<lparr>nodes_changed := True\<rparr>) (emptied []) =
     Inr ([JArr [JStr ''$is'', JStr ''node'']], idle_link\<lparr>nodes_changed := True\<rparr>, emptied []) \<and>
   rearranges (ord plain_env) \<and>
   count_list
     [JArr [JStr ''$is'', JStr ''node''],
      JObj [(''change'', JStr ''remove''), (''name'', JStr ''u'')]]
     (JObj [(''change'', JStr ''remove''), (''name'', JStr ''u'')]) = 1 \<and>
   remove_child plain_env ''u'' idle_link (watched [7] []) =
     Inr (True,
          \<lparr>active = False, nodes_changed = True,
             wsp = Some
               [JObj
                  [(''responses'',
                    JArr
                      [JObj
                         [(''updates'',
                           JArr
                             [JArr [JStr ''$is'', JStr ''node''],
                              JObj [(''change'', JStr ''remove''), (''name'', JStr ''u'')]]),
                          (''stream'', JStr ''open''), (''rid'', JInt 7)]])]]\<rparr>,
          Node ''dev'' ''/dev'' True False False Value_init [] [(''$is'', JStr ''node'')] [] [] [7] []) \<and>
   remove_child plain_env ''u'' idle_link (watched [] [leaf ''old'' ''/dev/old'']) =
     Inr (True, idle_link, emptied [leaf ''old'' ''/dev/old'', leaf ''u'' ''/dev/u'']) \<and>
   stream plain_env idle_link (emptied [leaf ''old'' ''/dev/old'', leaf ''u'' ''/dev/u'']) =
     Inr ([JArr [JStr ''$is'', JStr ''node''],
           JObj [(''change'', JStr ''remove''), (''name'', JStr ''old'')],
           JObj [(''change'', JStr ''remove''), (''name'', JStr ''u'')]],
          idle_link\<lparr>nodes_changed := True\<rparr>,
          emptied [])"
  using remove_child_tombstone
          [where n = "watched [] []" and nm = "''zz''" and e = plain_env and l = idle_link]
        remove_child_tombstone
          [where n = "watched [] []" and nm = "''u''" and e = plain_env and l = idle_link
             and c = "leaf ''u'' ''/dev/u''" and l' = idle_link]
        remove_child_tombstone
          [where n = "watched [] []" and nm = "''u''" and e = plain_env and l = idle_link
             and c = "leaf ''u'' ''/dev/u''" and l' = "idle_link\<lparr>nodes_changed := True\<rparr>"]
        remove_child_tombstone
          [where n = "watched [7] []" and nm = "''u''" and e = plain_env and l = idle_link
             and c = "leaf ''u'' ''/dev/u''" and s = 7 and ss = "[]" and sent = "[]"]
        remove_child_tombstone
          [where n = "watched [] [leaf ''old'' ''/dev/old'']" and nm = "''u''" and e = plain_env
             and l = idle_link and c = "leaf ''u'' ''/dev/u''" and l' = idle_link]
  by (simp add: watched_def emptied_def plain_env_def idle_link_def leaf_def response_def
        live_batch_def moved_def rearranges_def
        entry_def child_entry_def child_descriptor_def child_val_def has_value_def tombstone_def
        py_dict_def dict_items_def dict_update_def setitem_def List.map_filter_simps Value_init_def)

text \<open>
  The claim as stated fails when a child of the same name was removed before and no read
  has been made since: with no stream open, removing \<open>u\<close>, adding a new child \<open>u\<close>
  and removing it leaves two pending removals, and the next structural read reports two
  equal entries for the name \<open>u\<close>, not exactly one.
\<close>

theorem remove_child_same_name_twice_counterexample:
  "remove_child plain_env ''u'' idle_link (watched [] []) =
     Inr (True, idle_link, emptied [leaf ''u'' ''/dev/u'']) \<and>
   add_child plain_env (leaf ''u'' ''/dev/u'') idle_link (emptied [leaf ''u'' ''/dev/u'']) =
     Inr (idle_link\<lparr>nodes_changed := True\<rparr>, watched [] [leaf ''u'' ''/dev/u'']) \<and>
   remove_child plain_env ''u'' (idle_link\<lparr>nodes_changed := True\<rparr>) (watched [] [leaf ''u'' ''/dev/u'']) =
     Inr (True, idle_link\<lparr>nodes_changed := True\<rparr>,
          emptied [leaf ''u'' ''/dev/u'', leaf ''u'' ''/dev/u'']) \<and>
   stream plain_env (idle_link\<lparr>nodes_changed := True\<rparr>)
       (emptied [leaf ''u'' ''/dev/u'', leaf ''u'' ''/dev/u'']) =
     Inr ([JArr [JStr ''$is'', JStr ''node''],
           JObj [(''change'', JStr ''remove''), (''name'', JStr ''u'')],
           JObj [(''change'', JStr ''remove''), (''name'', JStr ''u'')]],
          idle_link\<lparr>nodes_changed := True\<rparr>,
          emptied []) \<and>
   count_list
     [JArr [JStr ''$is'', JStr ''node''],
      JObj [(''change'', JStr ''remove''), (''name'', JStr ''u'')],
      JObj [(''change'', JStr ''remove''), (''name'', JStr ''u'')]]
     (JObj [(''change'', JStr ''remove''), (''name'', JStr ''u'')]) = 2"
  by (simp add: remove_child_def add_child_def update_subscribers_def stream_def contains_def
        watched_def emptied_def leaf_def plain_env_def idle_link_def tombstone_def py_dict_def
        dict_items_def dict_update_def setitem_def List.map_filter_simps Value_init_def)

section \<open>The path of a node\<close>

lemma path_stream: "stream e l n = Inr (b, l1, n1) \<Longrightarrow> path n1 = path n"
  by (auto simp: stream_def Let_def split: sum.splits)

lemma path_stream_responses:
  "stream_responses e ss acc l n = Inr (rs, l1, n1) \<Longrightarrow> path n1 = path n"
proof (induction ss arbitrary: acc l n)
  case Nil
  then show ?case by simp
next
  case (Cons s ss)
  then show ?case
    by (auto split: sum.splits dest!: path_stream)
qed

lemma path_update_subscribers: "update_subscribers e l n = Inr (l1, n1) \<Longrightarrow> path n1 = path n"
  by (auto simp: update_subscribers_def split: sum.splits if_splits dest: path_stream_responses)

lemma path_set_config: "set_config e k v l n = Inr (l1, n1) \<Longrightarrow> path n1 = path n"
  by (auto simp: set_config_def split: if_splits dest: path_update_subscribers)

lemma path_set_attribute: "set_attribute e k v l n = Inr (l1, n1) \<Longrightarrow> path n1 = path n"
  by (auto simp: set_attribute_def split: if_splits dest: path_update_subscribers)

lemma path_set_type: "set_type e t l n = Inr (l1, n1) \<Longrightarrow> path n1 = path n"
  by (auto simp: set_type_def dest: path_set_config)

lemma path_set_value: "set_value e v tc now l n = Inr (i, l1, n1) \<Longrightarrow> path n1 = path n"
  by (auto simp: set_value_def Let_def split: prod.splits if_splits sum.splits option.splits error.splits)

lemma path_add_child: "add_child e c l n = Inr (l1, n1) \<Longrightarrow> path n1 = path n"
  by (auto simp: add_child_def Let_def split: if_splits dest: path_update_subscribers)

lemma path_remove_child: "remove_child e nm l n = Inr (ok, l1, n1) \<Longrightarrow> path n1 = path n"
  by (auto simp: remove_child_def split: option.splits sum.splits dest: path_update_subscribers)

lemma path_put:
  "\<not> (p = ''/'' \<or> prefix ''/$'' p \<or> prefix ''/@'' p) \<Longrightarrow> path (put n p m) = path n"
  by (subst put.simps) (auto split: sum.splits option.splits)

lemma path_remove_config_attr: "remove_config_attr d n p = Inr n1 \<Longrightarrow> path n1 = path n"
proof (induction d arbitrary: n n1)
  case 0
  then show ?case by simp
next
  case (Suc d)
  show ?case
  proof (cases "prefix ''/$'' p \<or> prefix (path n @ ''/$'') p \<or> prefix ''/@'' p \<or> prefix (path n @ ''/@'') p")
    case True
    with Suc.prems show ?thesis by (auto split: sum.splits if_splits)
  next
    case False
    with Suc.prems obtain m m1 where g: "get n p = Inr (Some m)"
      and r: "remove_config_attr d m p = Inr m1" and n1: "n1 = put n p m1"
      by (auto split: sum.splits option.splits)
    show ?thesis
    proof (cases "p = ''/''")
      case True
      then have "m = n" using g get_self[of p n] by simp
      moreover have "n1 = m1" using n1 True by (simp add: put.simps)
      ultimately show ?thesis using Suc.IH[OF r] by simp
    next
      case False
      with \<open>\<not> (prefix ''/$'' p \<or> prefix (path n @ ''/$'') p \<or> prefix ''/@'' p \<or> prefix (path n @ ''/@'') p)\<close>
      show ?thesis unfolding n1 by (intro path_put) auto
    qed
  qed
qed

text \<open>
  C9 (as amended). A node constructed with a name and a parent that has a link has the path
  \<open>parent.path + name\<close> when the parent's path ends with \<open>"/"\<close>, and
  \<open>parent.path + "/" + name\<close> otherwise; a root has the path \<open>"/" + name\<close>, or
  the empty path when it has no name. No operation on a node changes its path afterwards.
\<close>

theorem path_derived_at_construction:
  "(has_link parent \<longrightarrow>
      (\<exists>n. Node_init (Some nm) (Some parent) sa = Inr n \<and> name n = nm \<and>
           path n = (if suffix ''/'' (path parent) then path parent @ nm else path parent @ ''/'' @ nm))) \<and>
   (\<exists>n. Node_init (Some nm) None sa = Inr n \<and> name n = nm \<and> path n = ''/'' @ nm) \<and>
   (\<exists>n. Node_init None None sa = Inr n \<and> name n = '''' \<and> path n = '''') \<and>
   (set_value e v tc now l n = Inr (i, l1, n1) \<longrightarrow> path n1 = path n) \<and>
   (set_type e v l n = Inr (l1, n1) \<longrightarrow> path n1 = path n) \<and>
   (set_config e k v l n = Inr (l1, n1) \<longrightarrow> path n1 = path n) \<and>
   (set_attribute e k v l n = Inr (l1, n1) \<longrightarrow> path n1 = path n) \<and>
   (add_child e c l n = Inr (l1, n1) \<longrightarrow> path n1 = path n) \<and>
   (remove_child e k l n = Inr (ok, l1, n1) \<longrightarrow> path n1 = path n) \<and>
   (remove_config_attr d n p = Inr n1 \<longrightarrow> path n1 = path n) \<and>
   (stream e l n = Inr (batch, l1, n1) \<longrightarrow> path n1 = path n) \<and>
   (update_subscribers e l n = Inr (l1, n1) \<longrightarrow> path n1 = path n)"
  by (auto simp: Node_init_def
        dest: path_set_value path_set_type path_set_config path_set_attribute path_add_child
          path_remove_child path_remove_config_attr path_stream path_update_subscribers)

theorem path_derived_at_construction_witness:
  "has_link (branch '''' ''/'' []) \<and>
   Node_init (Some ''a'') (Some (branch '''' ''/'' [])) False = Inr (leaf ''a'' ''/a'') \<and>
   has_link (leaf ''dev'' ''/dev'') \<and>
   Node_init (Some ''t'') (Some (leaf ''dev'' ''/dev'')) False = Inr (leaf ''t'' ''/dev/t'') \<and>
   path (leaf ''t'' ''/dev/t'') = path (leaf ''dev'' ''/dev'') @ ''/'' @ ''t'' \<and>
   set_config plain_env ''$name'' (JStr ''T'') idle_link (leaf ''t'' ''/dev/t'') =
     Inr (idle_link\<lparr>nodes_changed := True\<rparr>,
          Node ''t'' ''/dev/t'' True False False Value_init []
            [(''$is'', JStr ''node''), (''$name'', JStr ''T'')] [] [] [] []) \<and>
   add_child plain_env (leaf ''t'' ''/elsewhere/t'') idle_link (branch ''dev'' ''/dev'' []) =
     Inr (idle_link\<lparr>nodes_changed := True\<rparr>,
          branch ''dev'' ''/dev'' [(''t'', leaf ''t'' ''/elsewhere/t'')]) \<and>
   remove_child plain_env ''t'' idle_link (branch ''dev'' ''/dev'' [(''t'', leaf ''t'' ''/elsewhere/t'')]) =
     Inr (True, idle_link,
          Node ''dev'' ''/dev'' True False False Value_init [] [(''$is'', JStr ''node'')] [] [] []
            [leaf ''t'' ''/elsewhere/t'']) \<and>
   remove_config_attr (Suc 0) (leaf ''t'' ''/dev/t'') ''/$$is'' =
     Inr (Node ''t'' ''/dev/t'' True False False Value_init [] [] [] [] [] [])"
  using path_derived_at_construction
          [where parent = "branch '''' ''/'' []" and nm = "''a''" and sa = False
             and e = plain_env and l = idle_link and n = "leaf ''t'' ''/dev/t''"
             and k = "''$name''" and v = "JStr ''T''"
             and ?l1.0 = "idle_link\<lparr>nodes_changed := True\<rparr>"
             and ?n1.0 = "Node ''t'' ''/dev/t'' True False False Value_init []
                            [(''$is'', JStr ''node''), (''$name'', JStr ''T'')] [] [] [] []"]
        path_derived_at_construction
          [where parent = "leaf ''dev'' ''/dev''" and nm = "''t''" and sa = False
             and e = plain_env and l = idle_link and n = "branch ''dev'' ''/dev'' []"
             and c = "leaf ''t'' ''/elsewhere/t''"
             and ?l1.0 = "idle_link\<lparr>nodes_changed := True\<rparr>"
             and ?n1.0 = "branch ''dev'' ''/dev'' [(''t'', leaf ''t'' ''/elsewhere/t'')]"]
        path_derived_at_construction
          [where e = plain_env and l = idle_link
             and n = "branch ''dev'' ''/dev'' [(''t'', leaf ''t'' ''/elsewhere/t'')]" and k = "''t''"
             and ok = True and ?l1.0 = idle_link
             and ?n1.0 = "Node ''dev'' ''/dev'' True False False Value_init [] [(''$is'', JStr ''node'')]
                            [] [] [] [leaf ''t'' ''/elsewhere/t'']"]
        path_derived_at_construction
          [where n = "leaf ''t'' ''/dev/t''" and d = "Suc 0" and p = "''/$$is''"
             and ?n1.0 = "Node ''t'' ''/dev/t'' True False False Value_init [] [] [] [] [] []"]
  by (simp add: Node_init_def branch_def leaf_def plain_env_def idle_link_def set_config_def
        add_child_def remove_child_def update_subscribers_def contains_def setitem_def delitem_def
        suffix_to_prefix)

text \<open>
  The claim as stated fails for a parent whose path ends with \<open>"/"\<close>: under the root
  named \<open>""\<close>, whose path is \<open>"/"\<close>, the child \<open>a\<close> has the path \<open>"/a"\<close>, not
  \<open>"//a"\<close>.
\<close>

theorem path_not_parent_slash_name_counterexample:
  "Node_init (Some '''') None False =
     Inr (Node '''' ''/'' False False False Value_init [] [(''$is'', JStr ''node'')] [] [] [] []) \<and>
   Node_init (Some ''a'')
       (Some (with_has_link True
                (Node '''' ''/'' False False False Value_init [] [(''$is'', JStr ''node'')] [] [] [] [])))
       False
     = Inr (leaf ''a'' ''/a'') \<and>
   path (leaf ''a'' ''/a'') \<noteq>
     path (with_has_link True
             (Node '''' ''/'' False False False Value_init [] [(''$is'', JStr ''node'')] [] [] [] []))
       @ ''/'' @ ''a''"
  by (simp add: Node_init_def leaf_def)

section \<open>Setting a value\<close>

text \<open>
  C1. The guard of \<open>set_value\<close> is \<open>not self.standalone or self.link.active\<close>. A node
  that is not standalone notifies its subscriber although the link is inactive; a
  standalone node on an inactive link changes its value without a notification; and a
  standalone node without a link raises \<open>AttributeError\<close>. The guard of \<open>add_child\<close> is
  \<open>self.standalone or self.link.active\<close>.
\<close>

theorem set_value_guard_negates_standalone:
  "set_value plain_env (JInt 5) False ''2026-01-01T00:00:00'' idle_link (subscribed True False) =
     Inr (True,
          idle_link\<lparr>wsp := Some
            [JObj
               [(''responses'',
                 JArr
                   [JObj
                      [(''updates'', JArr [JArr [JInt 1, JInt 5, JStr ''2026-01-01T00:00:00'']]),
                       (''rid'', JInt 0)]])]]\<rparr>,
          with_value \<lparr>assigned = Some (JInt 5, ''2026-01-01T00:00:00''), vtype = None\<rparr>
            (subscribed True False)) \<and>
   set_value plain_env (JInt 5) False ''2026-01-01T00:00:00'' idle_link (subscribed True True) =
     Inr (True, idle_link,
          with_value \<lparr>assigned = Some (JInt 5, ''2026-01-01T00:00:00''), vtype = None\<rparr>
            (subscribed True True)) \<and>
   set_value plain_env (JInt 5) False ''2026-01-01T00:00:00'' idle_link (subscribed False True) =
     Inl AttributeError"
  by (simp add: set_value_def Value_set_value_def subscribed_def Value_init_def plain_env_def
        idle_link_def update_subscribers_values_def has_value_def sendMessage_def py_dict_def
        dict_items_def List.map_filter_simps)

theorem set_value_guard_negates_standalone_witness:
  "map_sum id fst
     (set_value plain_env (JInt 5) False ''2026-01-01T00:00:00'' idle_link (subscribed True False)) =
     Inr True \<and>
   map_sum id (wsp \<circ> fst \<circ> snd)
     (set_value plain_env (JInt 5) False ''2026-01-01T00:00:00'' idle_link (subscribed True True)) =
     Inr (Some [])"
  using set_value_guard_negates_standalone by (simp add: idle_link_def)

section \<open>Removing a config entry or an attribute\<close>

text \<open>
  C2. For a path that begins with \<open>"/@"\<close>, \<open>remove_config_attr\<close> deletes the key from
  \<open>config\<close> and leaves the attributes as they are; when \<open>config\<close> has no such key it
  raises \<open>KeyError\<close>, whatever the attributes hold.
\<close>

theorem remove_config_attr_at_deletes_config:
  "remove_config_attr (Suc depth) (tagged [(''$is'', JStr ''node''), (''unit'', JStr ''C'')]) ''/@unit'' =
     Inr (tagged [(''$is'', JStr ''node'')]) \<and>
   remove_config_attr (Suc depth) (tagged [(''$is'', JStr ''node'')]) ''/@unit'' = Inl KeyError \<and>
   attributes (tagged [(''$is'', JStr ''node'')]) = [(''unit'', JStr ''K''), (''@unit'', JStr ''K'')]"
  by (simp add: tagged_def delitem_def)

theorem remove_config_attr_at_deletes_config_witness:
  "map_sum id attributes
     (remove_config_attr (Suc 0) (tagged [(''$is'', JStr ''node''), (''unit'', JStr ''C'')]) ''/@unit'') =
     Inr [(''unit'', JStr ''K''), (''@unit'', JStr ''K'')] \<and>
   map_sum id config
     (remove_config_attr (Suc 0) (tagged [(''$is'', JStr ''node''), (''unit'', JStr ''C'')]) ''/@unit'') =
     Inr [(''$is'', JStr ''node'')]"
  using remove_config_attr_at_deletes_config [of 0] by (simp add: tagged_def)

section \<open>The authentication token\<close>

lemma str_replace_char_filter: "str_replace [c] [] s = filter (\<lambda>x. x \<noteq> c) s"
  by (induction s) auto

lemma b64_char_not_pad: "i < 64 \<Longrightarrow> b64_char i \<noteq> CHR ''=''" "i < 64 \<Longrightarrow> CHR ''='' \<noteq> b64_char i"
proof -
  assume "i < 64"
  then have "b64_alphabet ! i \<in> set b64_alphabet"
    by (intro nth_mem) (simp add: b64_alphabet_def)
  moreover have "CHR ''='' \<notin> set b64_alphabet"
    by (simp add: b64_alphabet_def)
  ultimately show "b64_char i \<noteq> CHR ''=''" "CHR ''='' \<noteq> b64_char i"
    by (auto simp: b64_char_def)
qed

lemma sextets:
  "of_char a div 4 < (64::nat)"
  "of_char a mod 4 * 16 < (64::nat)"
  "of_char a mod 4 * 16 + of_char b div 16 < (64::nat)"
  "of_char b mod 16 * 4 < (64::nat)"
  "of_char b mod 16 * 4 + of_char c div 64 < (64::nat)"
  "of_char c mod 64 < (64::nat)"
proof -
  have a: "of_char a < (256::nat)" and b: "of_char b < (256::nat)" and c: "of_char c < (256::nat)"
    by simp_all
  show "of_char a div 4 < (64::nat)" using a by linarith
  show "of_char a mod 4 * 16 < (64::nat)" by simp
  show "of_char a mod 4 * 16 + of_char b div 16 < (64::nat)" using b by linarith
  show "of_char b mod 16 * 4 < (64::nat)" by linarith
  show "of_char b mod 16 * 4 + of_char c div 64 < (64::nat)" using c by linarith
  show "of_char c mod 64 < (64::nat)" by simp
qed

lemma b64_body_pad:
  "\<exists>body pad. urlsafe_b64encode xs = body @ pad \<and> CHR ''='' \<notin> set body \<and> set pad \<subseteq> {CHR ''=''}"
proof (induction xs rule: urlsafe_b64encode.induct)
  case 1
  show ?case by simp
next
  case (2 a)
  have "urlsafe_b64encode [a] = [b64_char (of_char a div 4), b64_char (of_char a mod 4 * 16)] @ ''==''"
    by simp
  moreover have "CHR ''='' \<notin> set [b64_char (of_char a div 4), b64_char (of_char a mod 4 * 16)]"
    using b64_char_not_pad(2)[OF sextets(1)[of a]] b64_char_not_pad(2)[OF sextets(2)[of a]] by simp
  moreover have "set ''=='' \<subseteq> {CHR ''=''}" by simp
  ultimately show ?case by blast
next
  case (3 a b)
  have "urlsafe_b64encode [a, b] =
          [b64_char (of_char a div 4), b64_char (of_char a mod 4 * 16 + of_char b div 16),
           b64_char (of_char b mod 16 * 4)] @ ''=''"
    by simp
  moreover have "CHR ''='' \<notin> set [b64_char (of_char a div 4), b64_char (of_char a mod 4 * 16 + of_char b div 16),
           b64_char (of_char b mod 16 * 4)]"
    using b64_char_not_pad(2)[OF sextets(1)[of a]] b64_char_not_pad(2)[OF sextets(3)[of a b]]
      b64_char_not_pad(2)[OF sextets(4)[of b]] by simp
  moreover have "set ''='' \<subseteq> {CHR ''=''}" by simp
  ultimately show ?case by blast
next
  case (4 a b c rest)
  then obtain body pad where r: "urlsafe_b64encode rest = body @ pad"
    and bp: "CHR ''='' \<notin> set body" "set pad \<subseteq> {CHR ''=''}" by blast
  let ?q = "[b64_char (of_char a div 4), b64_char (of_char a mod 4 * 16 + of_char b div 16),
             b64_char (of_char b mod 16 * 4 + of_char c div 64), b64_char (of_char c mod 64)]"
  have "urlsafe_b64encode (a # b # c # rest) = (?q @ body) @ pad"
    by (simp add: r)
  moreover have "CHR ''='' \<notin> set (?q @ body)"
    using b64_char_not_pad(2)[OF sextets(1)[of a]] b64_char_not_pad(2)[OF sextets(3)[of a b]]
      b64_char_not_pad(2)[OF sextets(5)[of b c]] b64_char_not_pad(2)[OF sextets(6)[of c]] bp(1)
    by simp
  ultimately show ?case using bp(2) by blast
qed

lemma strip_padding_body_pad:
  assumes "CHR ''='' \<notin> set body" "set pad \<subseteq> {CHR ''=''}"
  shows "strip_padding (body @ pad) = body" "filter (\<lambda>x. x \<noteq> CHR ''='') (body @ pad) = body"
proof -
  have "dropWhile (\<lambda>c. c = CHR ''='') (rev pad @ rev body) = dropWhile (\<lambda>c. c = CHR ''='') (rev body)"
    using assms(2) by (intro dropWhile_append2) auto
  also have "\<dots> = rev body"
    using assms(1) by (cases "rev body") auto
  finally show "strip_padding (body @ pad) = body" by (simp add: strip_padding_def)
  have "filter (\<lambda>x. x \<noteq> CHR ''='') pad = []" using assms(2) by (auto simp: filter_empty_conv)
  moreover have "filter (\<lambda>x. x \<noteq> CHR ''='') body = body" using assms(1) by (auto simp: filter_id_conv)
  ultimately show "filter (\<lambda>x. x \<noteq> CHR ''='') (body @ pad) = body" by simp
qed

lemma unpadded_b64: "str_replace ''='' [] (urlsafe_b64encode xs) = strip_padding (urlsafe_b64encode xs)"
proof -
  obtain body pad where e: "urlsafe_b64encode xs = body @ pad"
    and bp: "CHR ''='' \<notin> set body" "set pad \<subseteq> {CHR ''=''}" using b64_body_pad by blast
  show ?thesis
    unfolding e str_replace_char_filter strip_padding_body_pad[OF bp] ..
qed

text \<open>
  C5. For every salt and shared secret, the token of \<open>get_auth\<close> is the URL-safe base64
  encoding of the SHA-256 digest of the salt followed by the shared secret, with the
  \<open>=\<close> padding at its end stripped: removing every \<open>=\<close>, as the code does, removes
  exactly the padding. In particular, for the salt \<open>"abc"\<close> and the shared secret
  \<open>"secret"\<close> it is the stripped encoding of the digest of \<open>"abcsecret"\<close>.
\<close>

theorem get_auth_is_unpadded_base64url_of_sha256:
  "get_auth sha256 s = strip_padding (urlsafe_b64encode (sha256 (salt s @ shared_secret s))) \<and>
   get_auth sha256 (local_session auth) = strip_padding (urlsafe_b64encode (sha256 ''abcsecret''))"
  by (simp add: get_auth_def unpadded_b64 local_session_def)

section \<open>The connect URL\<close>

lemma str_replace_absent:
  "old \<noteq> [] \<Longrightarrow> \<not> sublist old s \<Longrightarrow> str_replace old new s = s"
proof (induction s)
  case Nil
  then show ?case by simp
next
  case (Cons c cs)
  from Cons.prems(2) have "\<not> prefix old (c # cs)" and "\<not> sublist old cs"
    by (auto simp: sublist_Cons_right)
  with Cons show ?case by simp
qed

lemma str_replace_at_head:
  "old \<noteq> [] \<Longrightarrow> str_replace old new (old @ s) = new @ str_replace old new s"
  by (cases old) simp_all

lemma not_sublist_http_s: "\<not> sublist ''http'' rest \<Longrightarrow> \<not> sublist ''http'' (CHR ''s'' # rest)"
  by (simp add: sublist_Cons_right)

lemma str_replace_scheme:
  assumes "\<not> sublist ''http'' rest"
  shows "str_replace ''http'' ''ws'' (''http'' @ rest) = ''ws'' @ rest"
    and "str_replace ''http'' ''ws'' (''https'' @ rest) = ''wss'' @ rest"
proof -
  show "str_replace ''http'' ''ws'' (''http'' @ rest) = ''ws'' @ rest"
    using str_replace_at_head[of "''http''" "''ws''" rest] str_replace_absent[OF _ assms, of "''ws''"]
    by simp
  have "str_replace ''http'' ''ws'' (''http'' @ CHR ''s'' # rest) = ''ws'' @ CHR ''s'' # rest"
    using str_replace_at_head[of "''http''" "''ws''" "CHR ''s'' # rest"]
      str_replace_absent[OF _ not_sublist_http_s[OF assms], of "''ws''"]
    by simp
  then show "str_replace ''http'' ''ws'' (''https'' @ rest) = ''wss'' @ rest" by simp
qed

lemma drop_conn: "length conn = 5 \<Longrightarrow> take (length (xs @ conn) - 5) (xs @ conn) = xs"
  by simp

lemma strip_trailing_segment_append:
  "CHR ''/'' \<notin> set seg \<Longrightarrow> strip_trailing_segment (base @ CHR ''/'' # seg) = base"
proof -
  assume "CHR ''/'' \<notin> set seg"
  then have "dropWhile (\<lambda>c. c \<noteq> CHR ''/'') (rev seg @ CHR ''/'' # rev base) = CHR ''/'' # rev base"
    by (auto simp: dropWhile_append3)
  then show ?thesis by (simp add: strip_trailing_segment_def)
qed

lemma rewrite_scheme_http: "rewrite_scheme (''http'' @ rest) = ''ws'' @ rest"
  by (cases rest) (auto simp: rewrite_scheme_def)

lemma after_slashes_found:
  "CHR ''/'' \<notin> set xs \<Longrightarrow> after_slashes (xs @ ''//'' @ ys) = Some ys"
  by (induction xs rule: induct_list012) auto

lemma authority_found:
  assumes "CHR ''/'' \<notin> set xs" and "set a \<inter> set ''/?#'' = {}"
  shows "authority (xs @ ''//'' @ a @ CHR ''/'' # t) = Some a"
proof -
  have "takeWhile (\<lambda>c. c \<notin> set ''/?#'') (a @ CHR ''/'' # t) = a"
    using assms(2) by (subst takeWhile_append2) auto
  then show ?thesis
    by (simp only: authority_def after_slashes_found[OF assms(1)]) simp
qed

lemma explicit_port_of_authority:
  "authority u = authority u' \<Longrightarrow> explicit_port u = explicit_port u'"
  by (simp add: explicit_port_def)

lemma get_url_on_conn_address:
  assumes "broker s = ''http'' @ rest @ CHR ''/'' # seg" and "length seg = 4"
    and "\<not> sublist ''http'' rest"
  shows "fst (get_url sha256 urlparse port s) =
           ''ws'' @ rest @ ''/ws?dsId='' @ dsid s
             @ (if needs_auth s then ''&auth='' @ get_auth sha256 s else [])
             @ (case token_hash s of None \<Rightarrow> [] | Some token \<Rightarrow> token)"
proof -
  have b: "broker s = (''http'' @ rest) @ CHR ''/'' # seg" and len: "length (CHR ''/'' # seg) = 5"
    using assms(1,2) by simp_all
  have cut: "take (length (broker s) - 5) (broker s) = ''http'' @ rest"
    unfolding b by (rule drop_conn[OF len])
  have "str_replace ''http'' ''ws'' (take (length (broker s) - 5) (broker s)) = ''ws'' @ rest"
    unfolding cut by (rule str_replace_scheme(1)[OF assms(3)])
  then show ?thesis
    by (simp add: get_url_def Let_def split: option.splits)
qed

text \<open>
  C6 (as amended). For a broker address that ends in a path segment of four characters
  after its slash (the \<open>/conn\<close> of a broker address) and holds \<open>http\<close> only as the
  beginning of its scheme, \<open>get_url\<close> returns the address without its trailing path
  segment and with the scheme rewritten (\<open>http\<close> to \<open>ws\<close>, hence \<open>https\<close> to
  \<open>wss\<close>), followed by \<open>/ws?dsId=<deviceId>\<close>, then by \<open>&auth=<token>\<close> exactly
  when authentication is required, then by the token fragment when one is configured;
  and when \<open>//\<close> and an authority precede the trailing segment, the URL built has the
  explicit port of the broker address, or none as the address has none. The library
  reporting the explicit port of the URL built, the port returned is that explicit port
  when the URL specifies one and 80 otherwise.
\<close>

theorem get_url_builds_websocket_url:
  "(broker s = ''http'' @ rest @ CHR ''/'' # seg \<and> length seg = 4 \<and> CHR ''/'' \<notin> set seg \<and>
    \<not> sublist ''http'' rest \<longrightarrow>
      fst (get_url sha256 urlparse port s) =
        rewrite_scheme (strip_trailing_segment (broker s)) @ ''/ws?dsId='' @ dsid s
          @ (if needs_auth s then ''&auth='' @ get_auth sha256 s else [])
          @ (case token_hash s of None \<Rightarrow> [] | Some token \<Rightarrow> token) \<and>
      rewrite_scheme (strip_trailing_segment (broker s)) = ''ws'' @ rest) \<and>
   (broker s = ''http'' @ rest @ CHR ''/'' # seg \<and> length seg = 4 \<and> CHR ''/'' \<notin> set seg \<and>
    \<not> sublist ''http'' rest \<and>
    rest = st @ ''//'' @ a \<and> CHR ''/'' \<notin> set st \<and> set a \<inter> set ''/?#'' = {} \<longrightarrow>
      explicit_port (fst (get_url sha256 urlparse port s)) = explicit_port (broker s)) \<and>
   (port (urlparse (fst (get_url sha256 urlparse port s))) =
      explicit_port (fst (get_url sha256 urlparse port s)) \<longrightarrow>
      snd (snd (get_url sha256 urlparse port s)) =
        (case explicit_port (fst (get_url sha256 urlparse port s)) of None \<Rightarrow> 80 | Some p \<Rightarrow> p))"
proof (intro conjI impI)
  assume a: "broker s = ''http'' @ rest @ CHR ''/'' # seg \<and> length seg = 4 \<and> CHR ''/'' \<notin> set seg \<and>
    \<not> sublist ''http'' rest"
  then have b: "broker s = (''http'' @ rest) @ CHR ''/'' # seg"
    and seg: "CHR ''/'' \<notin> set seg"
    by simp_all
  have strip: "strip_trailing_segment (broker s) = ''http'' @ rest"
    unfolding b by (rule strip_trailing_segment_append[OF seg])
  show scheme: "rewrite_scheme (strip_trailing_segment (broker s)) = ''ws'' @ rest"
    unfolding strip by (rule rewrite_scheme_http)
  from a have "fst (get_url sha256 urlparse port s) =
           ''ws'' @ rest @ ''/ws?dsId='' @ dsid s
             @ (if needs_auth s then ''&auth='' @ get_auth sha256 s else [])
             @ (case token_hash s of None \<Rightarrow> [] | Some token \<Rightarrow> token)"
    by (intro get_url_on_conn_address[of s rest seg]) simp_all
  then show "fst (get_url sha256 urlparse port s) =
        rewrite_scheme (strip_trailing_segment (broker s)) @ ''/ws?dsId='' @ dsid s
          @ (if needs_auth s then ''&auth='' @ get_auth sha256 s else [])
          @ (case token_hash s of None \<Rightarrow> [] | Some token \<Rightarrow> token)"
    unfolding scheme by simp
next
  assume a: "broker s = ''http'' @ rest @ CHR ''/'' # seg \<and> length seg = 4 \<and> CHR ''/'' \<notin> set seg \<and>
    \<not> sublist ''http'' rest \<and>
    rest = st @ ''//'' @ a \<and> CHR ''/'' \<notin> set st \<and> set a \<inter> set ''/?#'' = {}"
  note h1 = a[THEN conjunct1]
    and h2 = a[THEN conjunct2, THEN conjunct1]
    and h4 = a[THEN conjunct2, THEN conjunct2, THEN conjunct2, THEN conjunct1]
  from a have r: "rest = st @ ''//'' @ a" and au: "set a \<inter> set ''/?#'' = {}"
    and st1: "CHR ''/'' \<notin> set (''ws'' @ st)" and st2: "CHR ''/'' \<notin> set (''http'' @ st)"
    by simp_all
  have "fst (get_url sha256 urlparse port s) =
           ''ws'' @ rest @ ''/ws?dsId='' @ dsid s
             @ (if needs_auth s then ''&auth='' @ get_auth sha256 s else [])
             @ (case token_hash s of None \<Rightarrow> [] | Some token \<Rightarrow> token)"
    by (rule get_url_on_conn_address[OF h1 h2 h4])
  then have u: "fst (get_url sha256 urlparse port s) =
          (''ws'' @ st) @ ''//'' @ a @ CHR ''/'' # (''ws?dsId='' @ dsid s
            @ (if needs_auth s then ''&auth='' @ get_auth sha256 s else [])
            @ (case token_hash s of None \<Rightarrow> [] | Some token \<Rightarrow> token))"
    by (simp add: r)
  from a have b: "broker s = (''http'' @ st) @ ''//'' @ a @ CHR ''/'' # seg"
    by simp
  have "authority (fst (get_url sha256 urlparse port s)) = Some a"
    unfolding u by (rule authority_found[OF st1 au])
  moreover have "authority (broker s) = Some a"
    unfolding b by (rule authority_found[OF st2 au])
  ultimately show "explicit_port (fst (get_url sha256 urlparse port s)) = explicit_port (broker s)"
    by (simp add: explicit_port_of_authority)
next
  assume "port (urlparse (fst (get_url sha256 urlparse port s))) =
      explicit_port (fst (get_url sha256 urlparse port s))"
  moreover have "snd (snd (get_url sha256 urlparse port s)) =
      (case port (urlparse (fst (get_url sha256 urlparse port s))) of None \<Rightarrow> 80 | Some p \<Rightarrow> p)"
    by (simp add: get_url_def Let_def)
  ultimately show "snd (snd (get_url sha256 urlparse port s)) =
        (case explicit_port (fst (get_url sha256 urlparse port s)) of None \<Rightarrow> 80 | Some p \<Rightarrow> p)"
    by simp
qed

theorem get_url_builds_websocket_url_witness:
  "broker (local_session True) = ''http'' @ ''://localhost:8080'' @ CHR ''/'' # ''conn'' \<and>
   length ''conn'' = 4 \<and> CHR ''/'' \<notin> set ''conn'' \<and> \<not> sublist ''http'' ''://localhost:8080'' \<and>
   ''://localhost:8080'' = '':'' @ ''//'' @ ''localhost:8080'' \<and> CHR ''/'' \<notin> set '':'' \<and>
   set ''localhost:8080'' \<inter> set ''/?#'' = {} \<and>
   fst (get_url (\<lambda>x. x) (\<lambda>u. u) explicit_port (local_session True)) =
     ''ws://localhost:8080/ws?dsId=link-1&auth=YWJjc2VjcmV0'' \<and>
   explicit_port (broker (local_session True)) = Some 8080 \<and>
   snd (snd (get_url (\<lambda>x. x) (\<lambda>u. u) explicit_port (local_session True))) = 8080 \<and>
   broker (session_at ''https://broker.local/conn'' (Some ''&token=t0k'')) =
     ''http'' @ ''s://broker.local'' @ CHR ''/'' # ''conn'' \<and>
   \<not> sublist ''http'' ''s://broker.local'' \<and>
   fst (get_url (\<lambda>x. x) (\<lambda>u. u) explicit_port (session_at ''https://broker.local/conn'' (Some ''&token=t0k''))) =
     ''wss://broker.local/ws?dsId=link-1&token=t0k'' \<and>
   snd (snd (get_url (\<lambda>x. x) (\<lambda>u. u) explicit_port
               (session_at ''https://broker.local/conn'' (Some ''&token=t0k'')))) = 80"
proof -
  have ns: "\<not> sublist ''http'' ''://localhost:8080''" "\<not> sublist ''http'' ''s://broker.local''"
    by (simp_all add: sublist_Cons_right)
  have g1: "get_auth (\<lambda>x. x) (local_session True) = ''YWJjc2VjcmV0''"
    by (simp add: get_auth_def local_session_def b64_char_def b64_alphabet_def)
  have p1: "explicit_port ''ws://localhost:8080/ws?dsId=link-1&auth=YWJjc2VjcmV0'' = Some 8080"
    by (simp add: explicit_port_def authority_def decimal_def)
  have p2: "explicit_port ''wss://broker.local/ws?dsId=link-1&token=t0k'' = None"
    by (simp add: explicit_port_def authority_def decimal_def)
  have b1: "broker (local_session True) = ''http'' @ ''://localhost:8080'' @ CHR ''/'' # ''conn''"
    and b2: "broker (session_at ''https://broker.local/conn'' (Some ''&token=t0k'')) =
               ''http'' @ ''s://broker.local'' @ CHR ''/'' # ''conn''"
    by (simp_all add: local_session_def session_at_def)
  have seg: "length ''conn'' = 4 \<and> CHR ''/'' \<notin> set ''conn''" by simp
  have au: "''://localhost:8080'' = '':'' @ ''//'' @ ''localhost:8080'' \<and> CHR ''/'' \<notin> set '':'' \<and>
            set ''localhost:8080'' \<inter> set ''/?#'' = {}"
    by simp
  note t1 = get_url_builds_websocket_url
              [of "local_session True" "''://localhost:8080''" "''conn''" "\<lambda>x. x" "\<lambda>u. u" explicit_port
                 "'':''" "''localhost:8080''"]
  note t2 = get_url_builds_websocket_url
              [of "session_at ''https://broker.local/conn'' (Some ''&token=t0k'')" "''s://broker.local''"
                 "''conn''" "\<lambda>x. x" "\<lambda>u. u" explicit_port]
  have h1: "broker (local_session True) = ''http'' @ ''://localhost:8080'' @ CHR ''/'' # ''conn'' \<and>
            length ''conn'' = 4 \<and> CHR ''/'' \<notin> set ''conn'' \<and> \<not> sublist ''http'' ''://localhost:8080''"
    using b1 seg ns(1) by blast
  have h2: "broker (session_at ''https://broker.local/conn'' (Some ''&token=t0k'')) =
              ''http'' @ ''s://broker.local'' @ CHR ''/'' # ''conn'' \<and>
            length ''conn'' = 4 \<and> CHR ''/'' \<notin> set ''conn'' \<and> \<not> sublist ''http'' ''s://broker.local''"
    using b2 seg ns(2) by blast
  have f1: "fst (get_url (\<lambda>x. x) (\<lambda>u. u) explicit_port (local_session True)) =
              ''ws://localhost:8080/ws?dsId=link-1&auth=YWJjc2VjcmV0''"
    using t1[THEN conjunct1, rule_format, OF h1] g1 by (simp add: local_session_def)
  have f2: "fst (get_url (\<lambda>x. x) (\<lambda>u. u) explicit_port
                   (session_at ''https://broker.local/conn'' (Some ''&token=t0k''))) =
              ''wss://broker.local/ws?dsId=link-1&token=t0k''"
    using t2[THEN conjunct1, rule_format, OF h2] by (simp add: session_at_def)
  have k1: "explicit_port (fst (get_url (\<lambda>x. x) (\<lambda>u. u) explicit_port (local_session True))) =
              explicit_port (broker (local_session True))"
    using h1 au by (intro t1[THEN conjunct2, THEN conjunct1, rule_format]) blast
  have q1: "snd (snd (get_url (\<lambda>x. x) (\<lambda>u. u) explicit_port (local_session True))) =
               (case explicit_port (fst (get_url (\<lambda>x. x) (\<lambda>u. u) explicit_port (local_session True))) of
                  None \<Rightarrow> 80 | Some p \<Rightarrow> p)"
    by (rule t1[THEN conjunct2, THEN conjunct2, rule_format]) (rule refl)
  have q2: "snd (snd (get_url (\<lambda>x. x) (\<lambda>u. u) explicit_port
                         (session_at ''https://broker.local/conn'' (Some ''&token=t0k'')))) =
               (case explicit_port
                       (fst (get_url (\<lambda>x. x) (\<lambda>u. u) explicit_port
                               (session_at ''https://broker.local/conn'' (Some ''&token=t0k'')))) of
                  None \<Rightarrow> 80 | Some p \<Rightarrow> p)"
    by (rule t2[THEN conjunct2, THEN conjunct2, rule_format]) (rule refl)
  have e1: "explicit_port (broker (local_session True)) = Some 8080"
    using k1 unfolding f1 p1 by simp
  have r1: "snd (snd (get_url (\<lambda>x. x) (\<lambda>u. u) explicit_port (local_session True))) = 8080"
    unfolding q1 f1 p1 by simp
  have r2: "snd (snd (get_url (\<lambda>x. x) (\<lambda>u. u) explicit_port
                         (session_at ''https://broker.local/conn'' (Some ''&token=t0k'')))) = 80"
    unfolding q2 f2 p2 by simp
  show ?thesis
    using b1 b2 seg au ns f1 f2 e1 r1 r2 by blast
qed

text \<open>
  The claim as stated fails on the conventional address \<open>http://localhost:8080/conn\<close>:
  the code appends \<open>/ws?dsId=\<close>, not \<open>?dsId=\<close>, to the stripped address; and with a
  token fragment configured the URL ends with that fragment. The last two inputs lie
  outside the addresses of the amended claim: a trailing segment that is longer than
  \<open>/conn\<close>, of which the code cuts five characters, and a host name that contains
  \<open>http\<close>, which the code rewrites together with the scheme.
\<close>

theorem get_url_differs_from_spec_counterexample:
  "fst (get_url (\<lambda>x. x) (\<lambda>u. u) explicit_port (local_session False)) = ''ws://localhost:8080/ws?dsId=link-1'' \<and>
   spec_connect_url (broker (local_session False)) (dsid (local_session False)) False [] =
     ''ws://localhost:8080?dsId=link-1'' \<and>
   fst (get_url (\<lambda>x. x) (\<lambda>u. u) explicit_port (local_session False)) \<noteq>
     spec_connect_url (broker (local_session False)) (dsid (local_session False)) False [] \<and>
   fst (get_url (\<lambda>x. x) (\<lambda>u. u) explicit_port (session_at ''http://localhost:8080/conn'' (Some ''&token=t0k''))) =
     ''ws://localhost:8080/ws?dsId=link-1&token=t0k'' \<and>
   fst (get_url (\<lambda>x. x) (\<lambda>u. u) explicit_port (session_at ''http://localhost:8080/connect'' None)) =
     ''ws://localhost:8080/co/ws?dsId=link-1'' \<and>
   rewrite_scheme (strip_trailing_segment ''http://localhost:8080/connect'') = ''ws://localhost:8080'' \<and>
   fst (get_url (\<lambda>x. x) (\<lambda>u. u) explicit_port httpd_session) = ''wss://wsd.local/ws?dsId=link-1'' \<and>
   rewrite_scheme (strip_trailing_segment (broker httpd_session)) = ''wss://httpd.local''"
  by (simp add: get_url_def Let_def local_session_def httpd_session_def session_at_def
        spec_connect_url_def strip_trailing_segment_def rewrite_scheme_def)

section \<open>The round trip through the serializer\<close>

lemma update_fresh: "k \<notin> fst ` set d \<Longrightarrow> AList.update k v d = d @ [(k, v)]"
  by (induction d) auto

lemma dict_update_fresh:
  "distinct (map fst e) \<Longrightarrow> fst ` set e \<inter> fst ` set d = {} \<Longrightarrow> dict_update d e = d @ e"
proof (induction e arbitrary: d)
  case Nil
  then show ?case by (simp add: dict_update_def)
next
  case (Cons kv e)
  obtain k v where kv: "kv = (k, v)" by (cases kv)
  from Cons.prems have fresh: "k \<notin> fst ` set d" and dist: "distinct (map fst e)"
    and disj: "fst ` set e \<inter> fst ` set (d @ [(k, v)]) = {}"
    by (auto simp: kv)
  have "dict_update d (kv # e) = dict_update (d @ [(k, v)]) e"
    by (simp add: dict_update_def kv setitem_def update_fresh[OF fresh])
  also have "\<dots> = (d @ [(k, v)]) @ e" using Cons.IH[OF dist disj] .
  finally show ?case by (simp add: kv)
qed

lemma to_json_children_fresh:
  "distinct (map fst items) \<Longrightarrow> fst ` set items \<inter> fst ` set out = {} \<Longrightarrow>
   to_json_children items out =
     out @ map (\<lambda>(k, tr, j). (k, j)) (filter (\<lambda>(k, tr, j). \<not> tr) items)"
proof (induction items out rule: to_json_children.induct)
  case (1 out)
  then show ?case by simp
next
  case (2 k tr j cs out)
  from "2.prems" have fresh: "k \<notin> fst ` set out" and dist: "distinct (map fst cs)"
    and disj: "fst ` set cs \<inter> fst ` set (if \<not> tr then setitem out k j else out) = {}"
    by (auto simp: setitem_def update_fresh)
  show ?case
    using "2.IH"[OF dist disj] fresh by (simp add: setitem_def update_fresh)
qed

lemma map_filter_map_snd:
  "List.map_filter (\<lambda>k. map_option (Pair k) (map_option f (m k))) ks =
     map (\<lambda>(k, c). (k, f c)) (List.map_filter (\<lambda>k. map_option (Pair k) (m k)) ks)"
  by (induction ks) (auto simp: List.map_filter_simps split: option.splits)

lemma dict_items_map:
  "dict_items od (map (\<lambda>(k, c). (k, f c)) d) = map (\<lambda>(k, c). (k, f c)) (dict_items od d)"
proof -
  have mo: "map_of (map (\<lambda>(k, c). (k, f c)) d) = (\<lambda>k. map_option f (map_of d k))"
    by (rule ext) (simp add: map_of_map)
  have keys: "map fst (map (\<lambda>(k, c). (k, f c)) d) = map fst d"
    by (induction d) auto
  show ?thesis
    unfolding dict_items_def keys mo map_filter_map_snd ..
qed

lemma child_size: "(k, c) \<in> set (children n) \<Longrightarrow> size c < size n"
  by (cases n) (auto simp: less_Suc_eq_le dest!: size_list_estimation'[where f = "size_prod (\<lambda>_. 0) size" and y = "size c"])

lemma well_formedD:
  assumes "well_formed n"
  shows "distinct (map fst (config n))" "\<forall>k \<in> fst ` set (config n). prefix ''$'' k"
    "''$is'' \<in> fst ` set (config n)"
    "distinct (map fst (attributes n))" "\<forall>k \<in> fst ` set (attributes n). prefix ''@'' k"
    "distinct (map fst (children n))"
    "\<forall>(k, c) \<in> set (children n). \<not> prefix ''$'' k \<and> \<not> prefix ''@'' k \<and> (transient c \<or> well_formed c)"
  using assms by (cases n; auto simp: list_all_iff)+

lemma dollar_not_at: "prefix ''$'' k \<Longrightarrow> \<not> prefix ''@'' k"
  by (cases k) auto

lemma set_dict_items: "rearranges od \<Longrightarrow> distinct (map fst d) \<Longrightarrow> set (dict_items od d) = set d"
  using mset_dict_items by (metis set_mset_mset)

lemma distinct_dict_items:
  assumes "rearranges od" "distinct (map fst d)"
  shows "distinct (map fst (dict_items od d))"
proof -
  have "mset (map fst (dict_items od d)) = mset (map fst d)"
    using mset_dict_items[OF assms] by (metis mset_map)
  then show ?thesis using assms(2) by (metis mset_eq_imp_distinct_iff)
qed

lemma drop_transient_flags:
  "map (\<lambda>(k, tr, j). (k, j)) (filter (\<lambda>(k, tr, j). \<not> tr) (map (\<lambda>(k, c). (k, transient c, f c)) xs)) =
     map (\<lambda>(k, c). (k, f c)) (filter (\<lambda>(k, c). \<not> transient c) xs)"
  by (induction xs) auto

lemma to_json_members:
  assumes "well_formed n" "rearranges od"
  shows "to_json od n = JObj (dict_items od (members od n))"
    and "distinct (map fst (members od n))"
proof -
  note wf = well_formedD[OF assms(1)]
  let ?items = "dict_items od (children n)"
  have items_set: "set ?items = set (children n)" and items_dist: "distinct (map fst ?items)"
    using set_dict_items[OF assms(2) wf(6)] distinct_dict_items[OF assms(2) wf(6)] by simp_all
  have cf_at: "fst ` set (attributes n) \<inter> fst ` set (config n) = {}"
    using wf(2,5) dollar_not_at by fastforce
  have kids: "fst ` set ?items \<inter> fst ` set (config n @ attributes n) = {}"
    using wf(2,5,7) unfolding items_set by fastforce
  have keys_map: "map fst (map (\<lambda>(k, c). (k, transient c, to_json od c)) ?items) = map fst ?items"
    by (induction ?items) auto
  have step1: "dict_update (dict_update [] (config n)) (attributes n) = config n @ attributes n"
    using dict_update_fresh[OF wf(1), of "[]"] dict_update_fresh[OF wf(4) cf_at] by simp
  have step2: "to_json_children (map (\<lambda>(k, c). (k, transient c, to_json od c)) ?items) (config n @ attributes n)
        = members od n"
    using to_json_children_fresh[of "map (\<lambda>(k, c). (k, transient c, to_json od c)) ?items" "config n @ attributes n"]
      items_dist kids
    unfolding keys_map members_def drop_transient_flags
    by (metis keys_map list.set_map append_assoc)
  show "to_json od n = JObj (dict_items od (members od n))"
    using step1 step2
    by (cases n) (simp add: py_dict_def dict_items_map[where f = "\<lambda>c. (transient c, to_json od c)"])
  let ?kept = "filter (\<lambda>(k, c). \<not> transient c) ?items"
  have d1: "distinct (map fst ?kept)"
    using items_dist by (simp add: distinct_map_filter)
  have e1: "map fst (map (\<lambda>(k, c). (k, to_json od c)) ?kept) = map fst ?kept"
    by (induction ?items) auto
  have sub: "set (map fst ?kept) \<subseteq> fst ` set ?items" by auto
  have d2: "distinct (map fst (config n @ attributes n))"
    using wf(1,4) cf_at by auto
  have "set (map fst (config n @ attributes n)) \<inter> set (map fst ?kept) = {}"
    using kids sub by (simp only: set_map) blast
  then show "distinct (map fst (members od n))"
    using d1 d2 unfolding members_def
    by (simp only: map_append e1 distinct_append append_assoc[symmetric])
qed

lemma set_config_quiet:
  "has_link n \<Longrightarrow> streams n = [] \<Longrightarrow>
   set_config e k v l n = Inr (l\<lparr>nodes_changed := True\<rparr>, with_config (setitem (config n) k v) n)"
  by (simp add: set_config_def update_subscribers_no_streams)

lemma set_attribute_quiet:
  "has_link n \<Longrightarrow> streams n = [] \<Longrightarrow>
   set_attribute e k v l n = Inr (l\<lparr>nodes_changed := True\<rparr>, with_attributes (setitem (attributes n) k v) n)"
  by (simp add: set_attribute_def update_subscribers_no_streams)

lemma set_type_quiet:
  "has_link n \<Longrightarrow> streams n = [] \<Longrightarrow>
   set_type e t l n =
     Inr (l\<lparr>nodes_changed := True\<rparr>,
          with_config (setitem (config n) ''$type'' t) (with_value (Value_set_type t (val n)) n))"
  by (simp add: set_type_def set_config_quiet)

lemma add_child_quiet:
  "has_link n \<Longrightarrow> streams n = [] \<Longrightarrow> name c \<notin> fst ` set (children n) \<Longrightarrow>
   add_child e c l n = Inr (l\<lparr>nodes_changed := True\<rparr>, with_children (children n @ [(name c, c)]) n)"
  by (simp add: add_child_def contains_def map_of_eq_None_iff update_subscribers_no_streams
        setitem_def update_fresh Let_def)

lemma dict_update_Cons: "dict_update d ((k, v) # e) = dict_update (setitem d k v) e"
  by (simp add: dict_update_def)

lemma from_json_props_result:
  assumes "has_link node" "streams node = []"
    and "distinct (map fst props)"
    and "\<forall>(k, v) \<in> set props. \<not> prefix ''$'' k \<and> \<not> prefix ''@'' k \<longrightarrow> k \<notin> fst ` set (children node)"
    and "\<forall>(k, v) \<in> set props. \<not> prefix ''$'' k \<and> \<not> prefix ''@'' k \<longrightarrow>
           (\<forall>l0 nd. has_link nd \<longrightarrow>
              (\<exists>l1 c. from_json e v (Some nd) (Some k) False l0 = Inr (l1, c) \<and> name c = k \<and> Q k v c))"
  shows "\<exists>l' node'. from_json_props e props l node = Inr (l', node') \<and>
           has_link node' \<and> streams node' = [] \<and> name node' = name node \<and>
           config node' = dict_update (config node) (filter (\<lambda>(k, v). prefix ''$'' k) props) \<and>
           attributes node' =
             dict_update (attributes node) (filter (\<lambda>(k, v). \<not> prefix ''$'' k \<and> prefix ''@'' k) props) \<and>
           map fst (children node') =
             map fst (children node)
               @ map fst (filter (\<lambda>(k, v). \<not> prefix ''$'' k \<and> \<not> prefix ''@'' k) props) \<and>
           (\<forall>k c. map_of (children node) k = Some c \<longrightarrow> map_of (children node') k = Some c) \<and>
           (\<forall>(k, v) \<in> set props. \<not> prefix ''$'' k \<and> \<not> prefix ''@'' k \<longrightarrow>
              (\<exists>c. map_of (children node') k = Some c \<and> Q k v c))"
  using assms
proof (induction props arbitrary: l node)
  case Nil
  then show ?case by (simp add: dict_update_def)
next
  case (Cons kv props)
  obtain k v where kv: "kv = (k, v)" by (cases kv)
  from Cons.prems(3) have dist: "distinct (map fst props)" and knew: "k \<notin> fst ` set props"
    by (simp_all add: kv)
  have calls: "\<forall>(k, v) \<in> set props. \<not> prefix ''$'' k \<and> \<not> prefix ''@'' k \<longrightarrow>
           (\<forall>l0 nd. has_link nd \<longrightarrow>
              (\<exists>l1 c. from_json e v (Some nd) (Some k) False l0 = Inr (l1, c) \<and> name c = k \<and> Q k v c))"
    using Cons.prems(5) by simp
  have fresh: "\<forall>(k, v) \<in> set props. \<not> prefix ''$'' k \<and> \<not> prefix ''@'' k \<longrightarrow> k \<notin> fst ` set (children node)"
    using Cons.prems(4) by simp
  consider (cfg) "prefix ''$'' k" | (attr) "\<not> prefix ''$'' k" "prefix ''@'' k"
    | (child) "\<not> prefix ''$'' k" "\<not> prefix ''@'' k" by blast
  then show ?case
  proof cases
    case cfg
    define node1 where "node1 =
      (if k = ''$type'' then with_config (setitem (config node) ''$type'' v) (with_value (Value_set_type v (val node)) node)
       else with_config (setitem (config node) k v) node)"
    have step: "(if k = ''$type'' then set_type e v l node else set_config e k v l node)
                  = Inr (l\<lparr>nodes_changed := True\<rparr>, node1)"
      using Cons.prems(1,2) by (simp add: node1_def set_type_quiet set_config_quiet)
    have n1: "has_link node1" "streams node1 = []" "name node1 = name node"
      "children node1 = children node" "attributes node1 = attributes node"
      "config node1 = setitem (config node) k v"
      using Cons.prems(1,2) by (auto simp: node1_def)
    from Cons.IH[OF n1(1) n1(2) dist _ calls, of "l\<lparr>nodes_changed := True\<rparr>"] fresh
    obtain l' node' where r: "from_json_props e props (l\<lparr>nodes_changed := True\<rparr>) node1 = Inr (l', node')"
      and p: "has_link node'" "streams node' = []" "name node' = name node1"
        "config node' = dict_update (config node1) (filter (\<lambda>(k, v). prefix ''$'' k) props)"
        "attributes node' =
             dict_update (attributes node1) (filter (\<lambda>(k, v). \<not> prefix ''$'' k \<and> prefix ''@'' k) props)"
        "map fst (children node') =
             map fst (children node1)
               @ map fst (filter (\<lambda>(k, v). \<not> prefix ''$'' k \<and> \<not> prefix ''@'' k) props)"
        "\<forall>k c. map_of (children node1) k = Some c \<longrightarrow> map_of (children node') k = Some c"
        "\<forall>(k, v) \<in> set props. \<not> prefix ''$'' k \<and> \<not> prefix ''@'' k \<longrightarrow>
              (\<exists>c. map_of (children node') k = Some c \<and> Q k v c)"
      unfolding n1(4) by blast
    have "from_json_props e (kv # props) l node = Inr (l', node')"
      using step r cfg by (simp add: kv del: from_json.simps(1))
    then show ?thesis
      using p cfg unfolding n1 by (auto simp: kv dict_update_Cons)
  next
    case attr
    define node1 where "node1 = with_attributes (setitem (attributes node) k v) node"
    have step: "set_attribute e k v l node = Inr (l\<lparr>nodes_changed := True\<rparr>, node1)"
      using Cons.prems(1,2) by (simp add: node1_def set_attribute_quiet)
    have n1: "has_link node1" "streams node1 = []" "name node1 = name node"
      "children node1 = children node" "attributes node1 = setitem (attributes node) k v"
      "config node1 = config node"
      using Cons.prems(1,2) by (auto simp: node1_def)
    from Cons.IH[OF n1(1) n1(2) dist _ calls, of "l\<lparr>nodes_changed := True\<rparr>"] fresh
    obtain l' node' where r: "from_json_props e props (l\<lparr>nodes_changed := True\<rparr>) node1 = Inr (l', node')"
      and p: "has_link node'" "streams node' = []" "name node' = name node1"
        "config node' = dict_update (config node1) (filter (\<lambda>(k, v). prefix ''$'' k) props)"
        "attributes node' =
             dict_update (attributes node1) (filter (\<lambda>(k, v). \<not> prefix ''$'' k \<and> prefix ''@'' k) props)"
        "map fst (children node') =
             map fst (children node1)
               @ map fst (filter (\<lambda>(k, v). \<not> prefix ''$'' k \<and> \<not> prefix ''@'' k) props)"
        "\<forall>k c. map_of (children node1) k = Some c \<longrightarrow> map_of (children node') k = Some c"
        "\<forall>(k, v) \<in> set props. \<not> prefix ''$'' k \<and> \<not> prefix ''@'' k \<longrightarrow>
              (\<exists>c. map_of (children node') k = Some c \<and> Q k v c)"
      unfolding n1(4) by blast
    have "from_json_props e (kv # props) l node = Inr (l', node')"
      using step r attr by (simp add: kv del: from_json.simps(1))
    then show ?thesis
      using p attr unfolding n1 by (auto simp: kv dict_update_Cons)
  next
    case child
    from Cons.prems(5) child Cons.prems(1)
    obtain l1 c where fj: "from_json e v (Some node) (Some k) False l = Inr (l1, c)"
      and c: "name c = k" "Q k v c"
      by (fastforce simp: kv)
    from Cons.prems(4) child have kfresh: "k \<notin> fst ` set (children node)" by (simp add: kv)
    define node1 where "node1 = with_children (children node @ [(k, c)]) node"
    have step: "add_child e c l1 node = Inr (l1\<lparr>nodes_changed := True\<rparr>, node1)"
      using add_child_quiet[OF Cons.prems(1,2), of c e l1] kfresh c(1) by (simp add: node1_def)
    have n1: "has_link node1" "streams node1 = []" "name node1 = name node"
      "children node1 = children node @ [(k, c)]" "attributes node1 = attributes node"
      "config node1 = config node"
      using Cons.prems(1,2) by (auto simp: node1_def)
    have fresh1': "k' \<notin> fst ` set (children node1)"
      if in_props: "(k', v') \<in> set props" and cls: "\<not> prefix ''$'' k'" "\<not> prefix ''@'' k'" for k' v'
    proof -
      from in_props have "k' \<in> fst ` set props" by (rule rev_image_eqI) simp
      with knew have "k' \<noteq> k" by blast
      moreover from fresh in_props cls have "k' \<notin> fst ` set (children node)" by blast
      ultimately show ?thesis unfolding n1(4) by auto
    qed
    have fresh1: "\<forall>(k', v) \<in> set props. \<not> prefix ''$'' k' \<and> \<not> prefix ''@'' k' \<longrightarrow> k' \<notin> fst ` set (children node1)"
      using fresh1' by blast
    from Cons.IH[OF n1(1) n1(2) dist fresh1 calls, of "l1\<lparr>nodes_changed := True\<rparr>"]
    obtain l' node' where r: "from_json_props e props (l1\<lparr>nodes_changed := True\<rparr>) node1 = Inr (l', node')"
      and p: "has_link node'" "streams node' = []" "name node' = name node1"
        "config node' = dict_update (config node1) (filter (\<lambda>(k, v). prefix ''$'' k) props)"
        "attributes node' =
             dict_update (attributes node1) (filter (\<lambda>(k, v). \<not> prefix ''$'' k \<and> prefix ''@'' k) props)"
        "map fst (children node') =
             map fst (children node1)
               @ map fst (filter (\<lambda>(k, v). \<not> prefix ''$'' k \<and> \<not> prefix ''@'' k) props)"
        "\<forall>k c. map_of (children node1) k = Some c \<longrightarrow> map_of (children node') k = Some c"
        "\<forall>(k, v) \<in> set props. \<not> prefix ''$'' k \<and> \<not> prefix ''@'' k \<longrightarrow>
              (\<exists>c. map_of (children node') k = Some c \<and> Q k v c)"
      by blast
    have run: "from_json_props e (kv # props) l node = Inr (l', node')"
      using step r child fj by (simp add: kv del: from_json.simps(1))
    have kept: "map_of (children node) k0 = Some c0 \<Longrightarrow> map_of (children node1) k0 = Some c0" for k0 c0
      unfolding n1(4) by (simp add: map_add_def)
    have new: "map_of (children node1) k = Some c"
      unfolding n1(4) using kfresh by (simp add: map_add_def map_of_eq_None_iff[THEN iffD2])
    have "\<exists>c. map_of (children node') k = Some c \<and> Q k v c"
      using p(7) new c(2) by blast
    then show ?thesis
      using run p child kept unfolding n1 by (auto simp: kv)
  qed
qed

lemma case_option_ex:
  "(case x of None \<Rightarrow> False | Some c' \<Rightarrow> P c') \<longleftrightarrow> (\<exists>c'. x = Some c' \<and> P c')"
  by (cases x) auto

lemma reproduces_iff:
  "reproduces m n \<longleftrightarrow>
     mset (config m) = mset (config n) \<and> mset (attributes m) = mset (attributes n) \<and>
     mset (map fst (children m)) = mset (map fst (filter (\<lambda>(k, c). \<not> transient c) (children n))) \<and>
     (\<forall>(k, c) \<in> set (children n). transient c \<or>
        (\<exists>c'. map_of (children m) k = Some c' \<and> reproduces c' c))"
proof (cases n)
  case (Node nm p hl sa tr v ch cf at su st rc)
  show ?thesis
    unfolding Node reproduces.simps node.sel list_all_iff case_option_ex ..
qed

lemma distinct_dict_update:
  "distinct (map fst d) \<Longrightarrow> distinct (map fst (dict_update d e))"
proof (induction e arbitrary: d)
  case Nil
  then show ?case by (simp add: dict_update_def)
next
  case (Cons kv e)
  obtain k v where kv: "kv = (k, v)" by (cases kv)
  have "distinct (map fst (setitem d k v))"
    using Cons.prems by (simp add: setitem_def distinct_update)
  from Cons.IH[OF this] show ?case by (simp add: kv dict_update_Cons)
qed

lemma mset_eq_of_dicts:
  assumes "distinct (map fst xs)" "distinct (map fst ys)" "set xs = set ys"
  shows "mset xs = mset ys"
proof -
  have "distinct xs" "distinct ys" using assms(1,2) by (simp_all add: distinct_map)
  with assms(3) show ?thesis by (simp add: set_eq_iff_mset_eq_distinct)
qed

lemma Node_init_root:
  assumes "case root of None \<Rightarrow> lg | Some r \<Rightarrow> has_link r"
  shows "\<exists>node0. Node_init (Some nm) root False = Inr node0 \<and> name node0 = nm \<and>
           config node0 = [(''$is'', JStr ''node'')] \<and> attributes node0 = [] \<and> children node0 = [] \<and>
           streams node0 = [] \<and> has_link (if lg then with_has_link True node0 else node0)"
proof (cases root)
  case None
  with assms have lg by simp
  have "Node_init (Some nm) root False =
          Inr (Node nm (''/'' @ nm) False False False Value_init [] [(''$is'', JStr ''node'')] [] [] [] [])"
    by (simp add: Node_init_def None)
  with \<open>lg\<close> show ?thesis by simp
next
  case (Some r)
  with assms have "has_link r" by simp
  then have "Node_init (Some nm) root False =
          Inr (Node nm (if suffix ''/'' (path r) then path r @ nm else path r @ ''/'' @ nm)
                 True False False Value_init [] [(''$is'', JStr ''node'')] [] [] [] [])"
    by (simp add: Node_init_def Some)
  then show ?thesis by simp
qed

lemma members_set:
  assumes "well_formed n" "rearranges od"
  shows "set (members od n) =
           set (config n) \<union> set (attributes n)
             \<union> {(k, to_json od c) | k c. (k, c) \<in> set (children n) \<and> \<not> transient c}"
proof -
  have cs: "set (dict_items od (children n)) = set (children n)"
    using set_dict_items[OF assms(2) well_formedD(6)[OF assms(1)]] .
  let ?L = "set (map (\<lambda>(k, c). (k, to_json od c))
                  (filter (\<lambda>(k, c). \<not> transient c) (dict_items od (children n))))"
  let ?R = "{(k, to_json od c) | k c. (k, c) \<in> set (children n) \<and> \<not> transient c}"
  have "?L = ?R"
  proof (intro set_eqI iffI)
    fix x assume "x \<in> ?L"
    then obtain y where y: "y \<in> set (dict_items od (children n))" "\<not> transient (snd y)"
      "x = (fst y, to_json od (snd y))"
      by (fastforce simp: case_prod_beta)
    then have "(fst y, snd y) \<in> set (children n)" unfolding cs by simp
    with y(2,3) show "x \<in> ?R" by blast
  next
    fix x assume "x \<in> ?R"
    then obtain k c where kc: "x = (k, to_json od c)" "(k, c) \<in> set (children n)" "\<not> transient c"
      by blast
    then have "(k, c) \<in> set (filter (\<lambda>(k, c). \<not> transient c) (dict_items od (children n)))"
      unfolding cs[symmetric] by simp
    then have "(\<lambda>(k, c). (k, to_json od c)) (k, c) \<in> ?L"
      unfolding set_map by (rule imageI)
    then show "x \<in> ?L" unfolding kc(1) by simp
  qed
  then show ?thesis unfolding members_def set_append by (simp only: Un_assoc)
qed

lemma map_of_shadowed:
  assumes "dom m1 \<subseteq> dom m2"
  shows "m1 ++ m2 = m2"
proof
  fix k
  show "(m1 ++ m2) k = m2 k"
  proof (cases "m2 k")
    case None
    then have "k \<notin> dom m2" by (simp add: domIff)
    with assms have "k \<notin> dom m1" by blast
    then have "m1 k = None" by (simp add: domIff)
    with None show ?thesis by (simp add: map_add_def)
  next
    case (Some v)
    then show ?thesis by (simp add: map_add_def)
  qed
qed

lemma round_trip:
  assumes re: "rearranges (ord e)"
  shows "well_formed n \<Longrightarrow> (case root of None \<Rightarrow> lg | Some r \<Rightarrow> has_link r) \<Longrightarrow>
         \<exists>l' m. from_json e (to_json (ord e) n) root (Some nm) lg l = Inr (l', m) \<and>
                 name m = nm \<and> reproduces m n"
proof (induction n arbitrary: root nm lg l rule: measure_induct_rule[where f = size])
  case (less n)
  let ?od = "ord e"
  note wf = well_formedD[OF less.prems(1)]
  let ?props = "dict_items ?od (members ?od n)"
  have tj: "to_json ?od n = JObj ?props" and md: "distinct (map fst (members ?od n))"
    using to_json_members[OF less.prems(1) re] by simp_all
  have pset: "set ?props = set (members ?od n)" using set_dict_items[OF re md] .
  have pdist: "distinct (map fst ?props)" using distinct_dict_items[OF re md] .
  have mem: "set ?props =
           set (config n) \<union> set (attributes n)
             \<union> {(k, to_json ?od c) | k c. (k, c) \<in> set (children n) \<and> \<not> transient c}"
    unfolding pset using members_set[OF less.prems(1) re] .
  have cfg_cls: "prefix ''$'' k" if "(k, v) \<in> set (config n)" for k v
    using wf(2) that by force
  have att_cls: "prefix ''@'' k \<and> \<not> prefix ''$'' k" if "(k, v) \<in> set (attributes n)" for k v
    using wf(5) that dollar_not_at[of k] by force
  have kid_cls: "\<not> prefix ''$'' k \<and> \<not> prefix ''@'' k \<and> (transient c \<or> well_formed c)"
    if "(k, c) \<in> set (children n)" for k c
    using wf(7) that by blast
  have child_prop: "\<exists>c0. (k, c0) \<in> set (children n) \<and> \<not> transient c0 \<and> v = to_json ?od c0"
    if "(k, v) \<in> set ?props" "\<not> prefix ''$'' k" "\<not> prefix ''@'' k" for k v
  proof -
    from that(1) consider "(k, v) \<in> set (config n)" | "(k, v) \<in> set (attributes n)"
      | "\<exists>c. v = to_json ?od c \<and> (k, c) \<in> set (children n) \<and> \<not> transient c"
      unfolding mem by blast
    then show ?thesis
    proof cases
      case 1
      with cfg_cls that(2) show ?thesis by blast
    next
      case 2
      with att_cls that(3) show ?thesis by blast
    next
      case 3
      then show ?thesis by blast
    qed
  qed
  obtain node0 where n0: "Node_init (Some nm) root False = Inr node0" "name node0 = nm"
    "config node0 = [(''$is'', JStr ''node'')]" "attributes node0 = []" "children node0 = []"
    "streams node0 = []" "has_link (if lg then with_has_link True node0 else node0)"
    using Node_init_root[OF less.prems(2), of nm] by blast
  define node where "node = (if lg then with_has_link True node0 else node0)"
  have nd: "has_link node" "streams node = []" "name node = nm"
    "config node = [(''$is'', JStr ''node'')]" "attributes node = []" "children node = []"
    using n0 by (simp_all add: node_def)
  have fj: "from_json e (to_json ?od n) root (Some nm) lg l = from_json_props e ?props l node"
    unfolding tj by (simp add: n0(1) node_def)
  define Q where "Q = (\<lambda>k (v::json) c. \<exists>c0. (k, c0) \<in> set (children n) \<and> \<not> transient c0 \<and> reproduces c c0)"
  have call: "\<exists>l1 c. from_json e v (Some nd) (Some k) False l0 = Inr (l1, c) \<and> name c = k \<and> Q k v c"
    if "(k, v) \<in> set ?props" "\<not> prefix ''$'' k" "\<not> prefix ''@'' k" "has_link nd" for k v l0 nd
  proof -
    from child_prop[OF that(1-3)] obtain c0 where c0: "(k, c0) \<in> set (children n)" "\<not> transient c0"
      "v = to_json ?od c0" by blast
    have wfc: "well_formed c0" using kid_cls[OF c0(1)] c0(2) by blast
    have sz: "size c0 < size n" using child_size[OF c0(1)] .
    have lnk: "case Some nd of None \<Rightarrow> False | Some r \<Rightarrow> has_link r" using that(4) by simp
    from less.IH[OF sz wfc lnk]
    obtain l1 c where "from_json e (to_json ?od c0) (Some nd) (Some k) False l0 = Inr (l1, c)"
      "name c = k" "reproduces c c0"
      by blast
    then show ?thesis unfolding Q_def c0(3) using c0(1,2) by blast
  qed
  have calls: "\<forall>(k, v) \<in> set ?props. \<not> prefix ''$'' k \<and> \<not> prefix ''@'' k \<longrightarrow>
           (\<forall>l0 nd. has_link nd \<longrightarrow>
              (\<exists>l1 c. from_json e v (Some nd) (Some k) False l0 = Inr (l1, c) \<and> name c = k \<and> Q k v c))"
    using call by blast
  have fresh: "\<forall>(k, v) \<in> set ?props. \<not> prefix ''$'' k \<and> \<not> prefix ''@'' k \<longrightarrow> k \<notin> fst ` set (children node)"
    by (simp add: nd)
  from from_json_props_result[OF nd(1,2) pdist fresh calls, of l]
  obtain l' m where run: "from_json_props e ?props l node = Inr (l', m)"
    and m: "name m = name node"
      "config m = dict_update (config node) (filter (\<lambda>(k, v). prefix ''$'' k) ?props)"
      "attributes m = dict_update (attributes node) (filter (\<lambda>(k, v). \<not> prefix ''$'' k \<and> prefix ''@'' k) ?props)"
      "map fst (children m) = map fst (children node) @ map fst (filter (\<lambda>(k, v). \<not> prefix ''$'' k \<and> \<not> prefix ''@'' k) ?props)"
      "\<forall>(k, v) \<in> set ?props. \<not> prefix ''$'' k \<and> \<not> prefix ''@'' k \<longrightarrow> (\<exists>c. map_of (children m) k = Some c \<and> Q k v c)"
    by blast
  \<comment> \<open>the config\<close>
  let ?cp = "filter (\<lambda>(k, v). prefix ''$'' k) ?props"
  have cp_set: "set ?cp = set (config n)"
  proof (intro set_eqI iffI)
    fix x assume "x \<in> set ?cp"
    then obtain k v where x: "x = (k, v)" "(k, v) \<in> set ?props" "prefix ''$'' k" by auto
    from x(2) consider "(k, v) \<in> set (config n)" | "(k, v) \<in> set (attributes n)"
      | "\<exists>c. v = to_json ?od c \<and> (k, c) \<in> set (children n) \<and> \<not> transient c"
      unfolding mem by blast
    then show "x \<in> set (config n)"
    proof cases
      case 1 then show ?thesis by (simp add: x(1))
    next
      case 2 with att_cls x(3) show ?thesis by blast
    next
      case 3 with kid_cls x(3) show ?thesis by blast
    qed
  next
    fix x assume a: "x \<in> set (config n)"
    obtain k v where x: "x = (k, v)" by (cases x)
    from a have "(k, v) \<in> set ?props" unfolding mem x by blast
    moreover have "prefix ''$'' k" using cfg_cls a unfolding x by blast
    ultimately show "x \<in> set ?cp" by (simp add: x)
  qed
  have cp_dist: "distinct (map fst ?cp)" using pdist by (simp add: distinct_map_filter)
  have "map_of (config m) = map_of [(''$is'', JStr ''node'')] ++ map_of ?cp"
    unfolding m(2) nd(4) using map_of_dict_update[OF cp_dist] .
  moreover have "dom (map_of [(''$is'', JStr ''node'')]) \<subseteq> dom (map_of ?cp)"
  proof -
    have "dom (map_of ?cp) = fst ` set (config n)"
      unfolding dom_map_of_conv_image_fst cp_set ..
    with wf(3) show ?thesis by simp
  qed
  ultimately have "map_of (config m) = map_of ?cp" by (simp only: map_of_shadowed)
  moreover have "map_of ?cp = map_of (config n)"
    using cp_set cp_dist wf(1) by (simp add: map_of_inject_set)
  moreover have cm_dist: "distinct (map fst (config m))"
    unfolding m(2) nd(4) by (rule distinct_dict_update) simp
  ultimately have "set (config m) = set (config n)"
    using wf(1) by (simp add: map_of_inject_set)
  then have r1: "mset (config m) = mset (config n)"
    using mset_eq_of_dicts[OF cm_dist wf(1)] by simp
  \<comment> \<open>the attributes\<close>
  let ?ap = "filter (\<lambda>(k, v). \<not> prefix ''$'' k \<and> prefix ''@'' k) ?props"
  have ap_set: "set ?ap = set (attributes n)"
  proof (intro set_eqI iffI)
    fix x assume "x \<in> set ?ap"
    then obtain k v where x: "x = (k, v)" "(k, v) \<in> set ?props" "\<not> prefix ''$'' k" "prefix ''@'' k"
      by auto
    from x(2) consider "(k, v) \<in> set (config n)" | "(k, v) \<in> set (attributes n)"
      | "\<exists>c. v = to_json ?od c \<and> (k, c) \<in> set (children n) \<and> \<not> transient c"
      unfolding mem by blast
    then show "x \<in> set (attributes n)"
    proof cases
      case 1 with cfg_cls x(3) show ?thesis by blast
    next
      case 2 then show ?thesis by (simp add: x(1))
    next
      case 3 with kid_cls x(4) show ?thesis by blast
    qed
  next
    fix x assume a: "x \<in> set (attributes n)"
    obtain k v where x: "x = (k, v)" by (cases x)
    from a have "(k, v) \<in> set ?props" unfolding mem x by blast
    moreover have "prefix ''@'' k \<and> \<not> prefix ''$'' k" using att_cls a unfolding x by blast
    ultimately show "x \<in> set ?ap" by (simp add: x)
  qed
  have ap_dist: "distinct (map fst ?ap)" using pdist by (simp add: distinct_map_filter)
  have "attributes m = ?ap"
    unfolding m(3) nd(5) using dict_update_fresh[OF ap_dist, of "[]"] by simp
  then have r2: "mset (attributes m) = mset (attributes n)"
    using mset_eq_of_dicts[OF ap_dist wf(4) ap_set] by simp
  \<comment> \<open>the names of the children\<close>
  let ?kp = "filter (\<lambda>(k, v). \<not> prefix ''$'' k \<and> \<not> prefix ''@'' k) ?props"
  let ?kept = "filter (\<lambda>(k, c). \<not> transient c) (children n)"
  have kp_keys: "set (map fst ?kp) = set (map fst ?kept)"
  proof (intro set_eqI iffI)
    fix k assume "k \<in> set (map fst ?kp)"
    then obtain v where "(k, v) \<in> set ?props" "\<not> prefix ''$'' k" "\<not> prefix ''@'' k" by auto
    from child_prop[OF this] show "k \<in> set (map fst ?kept)" by force
  next
    fix k assume "k \<in> set (map fst ?kept)"
    then obtain c where c: "(k, c) \<in> set (children n)" "\<not> transient c" by auto
    then have "(k, to_json ?od c) \<in> set ?props" unfolding mem by blast
    with kid_cls[OF c(1)] have "(k, to_json ?od c) \<in> set ?kp" by simp
    then show "k \<in> set (map fst ?kp)" by force
  qed
  have kd1: "distinct (map fst ?kp)" using pdist by (simp add: distinct_map_filter)
  have kd2: "distinct (map fst ?kept)" using wf(6) by (simp add: distinct_map_filter)
  have "mset (map fst ?kp) = mset (map fst ?kept)"
    using set_eq_iff_mset_eq_distinct[OF kd1 kd2] kp_keys by blast
  then have r3: "mset (map fst (children m)) = mset (map fst ?kept)"
    unfolding m(4) nd(6) by simp
  \<comment> \<open>each child\<close>
  have r4': "\<exists>c'. map_of (children m) k = Some c' \<and> reproduces c' c"
    if c: "(k, c) \<in> set (children n)" "\<not> transient c" for k c
  proof -
    from c have "(k, to_json ?od c) \<in> set ?props" unfolding mem by blast
    with m(5) kid_cls[OF c(1)] obtain c' where c': "map_of (children m) k = Some c'" "Q k (to_json ?od c) c'"
      by blast
    then obtain c0 where c0: "(k, c0) \<in> set (children n)" "reproduces c' c0" unfolding Q_def by blast
    have "c0 = c" using wf(6) c(1) c0(1) by (meson eq_key_imp_eq_value)
    with c0 c' show ?thesis by blast
  qed
  have r4: "\<forall>(k, c) \<in> set (children n). transient c \<or>
        (\<exists>c'. map_of (children m) k = Some c' \<and> reproduces c' c)"
    using r4' by blast
  have "reproduces m n"
    unfolding reproduces_iff[of m n] using r1 r2 r3 r4 by blast
  with run m(1) nd(3) show ?case unfolding fj by blast
qed

lemma mset_members:
  assumes "well_formed n" "rearranges od"
  shows "mset (members od n) =
           mset (config n) + mset (attributes n)
             + mset (map (\<lambda>(k, c). (k, to_json od c)) (filter (\<lambda>(k, c). \<not> transient c) (children n)))"
proof -
  have "mset (dict_items od (children n)) = mset (children n)"
    using mset_dict_items[OF assms(2) well_formedD(6)[OF assms(1)]] .
  then have "mset (map (\<lambda>(k, c). (k, to_json od c)) (filter (\<lambda>(k, c). \<not> transient c) (dict_items od (children n))))
           = mset (map (\<lambda>(k, c). (k, to_json od c)) (filter (\<lambda>(k, c). \<not> transient c) (children n)))"
    by (simp only: mset_map mset_filter)
  then show ?thesis unfolding members_def by (simp only: mset_append add.assoc)
qed

text \<open>
  C7 (as amended). For every node of the data model (the keys of config, attributes and
  children are distinct, config keys begin with \<open>$\<close> and include \<open>$is\<close>, attribute keys
  begin with \<open>@\<close>, names of children begin with neither, and the same holds below every
  child that is not transient), \<open>to_json\<close> holds exactly the config entries, the
  attribute entries and one serialized entry per child that is not transient; and
  \<open>from_json\<close> of it, called with a link (given, or that of the parent), returns a node
  that has the same config entries and attribute entries and, recursively, the same
  children that are not transient, whatever the order in which the dicts iterate.
\<close>

theorem to_json_from_json_round_trip:
  assumes "well_formed n" and "rearranges (ord e)"
    and "case root of None \<Rightarrow> lg | Some r \<Rightarrow> has_link r"
  shows "(\<exists>ms. to_json (ord e) n = JObj ms \<and>
            mset ms =
              mset (config n) + mset (attributes n)
                + mset (map (\<lambda>(k, c). (k, to_json (ord e) c))
                          (filter (\<lambda>(k, c). \<not> transient c) (children n)))) \<and>
         (\<exists>l' m. from_json e (to_json (ord e) n) root (Some nm) lg l = Inr (l', m) \<and>
                  name m = nm \<and> reproduces m n)"
proof
  have "to_json (ord e) n = JObj (dict_items (ord e) (members (ord e) n))"
    and md: "distinct (map fst (members (ord e) n))"
    using to_json_members[OF assms(1,2)] by simp_all
  moreover have "mset (dict_items (ord e) (members (ord e) n)) = mset (members (ord e) n)"
    using mset_dict_items[OF assms(2) md] .
  ultimately show "\<exists>ms. to_json (ord e) n = JObj ms \<and>
            mset ms =
              mset (config n) + mset (attributes n)
                + mset (map (\<lambda>(k, c). (k, to_json (ord e) c))
                          (filter (\<lambda>(k, c). \<not> transient c) (children n)))"
    using mset_members[OF assms(1,2)] by simp
  show "\<exists>l' m. from_json e (to_json (ord e) n) root (Some nm) lg l = Inr (l', m) \<and>
                  name m = nm \<and> reproduces m n"
    using round_trip[OF assms(2) assms(1) assms(3)] .
qed

theorem to_json_from_json_round_trip_witness:
  "well_formed home \<and> rearranges (ord plain_env) \<and>
   to_json (ord plain_env) home =
     JObj [(''lamp'',
            JObj [(''@room'', JStr ''hall''), (''$type'', JStr ''bool''), (''$is'', JStr ''node'')]),
           (''@floor'', JInt 1), (''$name'', JStr ''Home''), (''$is'', JStr ''node'')] \<and>
   from_json plain_env (to_json (ord plain_env) home) None (Some ''home'') True idle_link =
     Inr (idle_link\<lparr>nodes_changed := True\<rparr>,
          Node ''home'' ''/home'' True False False Value_init
            [(''lamp'',
              Node ''lamp'' ''/home/lamp'' True False False
                \<lparr>assigned = None, vtype = Some (JStr ''bool'')\<rparr> []
                [(''$is'', JStr ''node''), (''$type'', JStr ''bool'')]
                [(''@room'', JStr ''hall'')] [] [] [])]
            [(''$is'', JStr ''node''), (''$name'', JStr ''Home'')]
            [(''@floor'', JInt 1)] [] [] []) \<and>
   reproduces
     (Node ''home'' ''/home'' True False False Value_init
        [(''lamp'',
          Node ''lamp'' ''/home/lamp'' True False False
            \<lparr>assigned = None, vtype = Some (JStr ''bool'')\<rparr> []
            [(''$is'', JStr ''node''), (''$type'', JStr ''bool'')]
            [(''@room'', JStr ''hall'')] [] [] [])]
        [(''$is'', JStr ''node''), (''$name'', JStr ''Home'')]
        [(''@floor'', JInt 1)] [] [] [])
     home"
proof -
  have wf: "well_formed home" by (simp add: home_def)
  have re: "rearranges (ord plain_env)" by (simp add: plain_env_def rearranges_def)
  have lk: "case None of None \<Rightarrow> True | Some r \<Rightarrow> has_link r" by simp
  have tj: "to_json (ord plain_env) home =
     JObj [(''lamp'',
            JObj [(''@room'', JStr ''hall''), (''$type'', JStr ''bool''), (''$is'', JStr ''node'')]),
           (''@floor'', JInt 1), (''$name'', JStr ''Home''), (''$is'', JStr ''node'')]"
    by (simp add: home_def plain_env_def py_dict_def dict_items_def dict_update_def setitem_def
          List.map_filter_simps)
  have fj: "from_json plain_env
       (JObj [(''lamp'',
            JObj [(''@room'', JStr ''hall''), (''$type'', JStr ''bool''), (''$is'', JStr ''node'')]),
           (''@floor'', JInt 1), (''$name'', JStr ''Home''), (''$is'', JStr ''node'')])
       None (Some ''home'') True idle_link =
     Inr (idle_link\<lparr>nodes_changed := True\<rparr>,
          Node ''home'' ''/home'' True False False Value_init
            [(''lamp'',
              Node ''lamp'' ''/home/lamp'' True False False
                \<lparr>assigned = None, vtype = Some (JStr ''bool'')\<rparr> []
                [(''$is'', JStr ''node''), (''$type'', JStr ''bool'')]
                [(''@room'', JStr ''hall'')] [] [] [])]
            [(''$is'', JStr ''node''), (''$name'', JStr ''Home'')]
            [(''@floor'', JInt 1)] [] [] [])"
    by (simp add: Node_init_def plain_env_def idle_link_def set_config_def set_type_def
          set_attribute_def add_child_def update_subscribers_def contains_def setitem_def
          Value_init_def Value_set_type_def suffix_to_prefix)
  from to_json_from_json_round_trip[OF wf re lk, of "''home''" idle_link]
  obtain l' m where "from_json plain_env (to_json (ord plain_env) home) None (Some ''home'') True idle_link
      = Inr (l', m)" and "reproduces m home"
    by blast
  with tj fj show ?thesis using wf re by simp
qed

text \<open>
  The claim as stated fails for a node outside the data model: after
  \<open>set_config("unit", "C")\<close> the config key \<open>unit\<close> comes back from the round trip as
  a child named \<open>unit\<close>, and the config entry is lost.
\<close>

theorem round_trip_unprefixed_key_counterexample:
  "set_config plain_env ''unit'' (JStr ''C'') idle_link (leaf ''t'' ''/t'') =
     Inr (idle_link\<lparr>nodes_changed := True\<rparr>,
          Node ''t'' ''/t'' True False False Value_init []
            [(''$is'', JStr ''node''), (''unit'', JStr ''C'')] [] [] [] []) \<and>
   from_json plain_env
       (to_json (ord plain_env)
          (Node ''t'' ''/t'' True False False Value_init []
             [(''$is'', JStr ''node''), (''unit'', JStr ''C'')] [] [] [] []))
       None (Some ''t'') True idle_link =
     Inr (idle_link\<lparr>nodes_changed := True\<rparr>,
          Node ''t'' ''/t'' True False False Value_init
            [(''unit'', leaf ''unit'' ''/t/unit'')] [(''$is'', JStr ''node'')] [] [] [] []) \<and>
   \<not> reproduces
       (Node ''t'' ''/t'' True False False Value_init
          [(''unit'', leaf ''unit'' ''/t/unit'')] [(''$is'', JStr ''node'')] [] [] [] [])
       (Node ''t'' ''/t'' True False False Value_init []
          [(''$is'', JStr ''node''), (''unit'', JStr ''C'')] [] [] [] [])"
  by (simp add: leaf_def Node_init_def plain_env_def idle_link_def set_config_def set_type_def
        set_attribute_def add_child_def update_subscribers_def contains_def setitem_def
        Value_init_def suffix_to_prefix py_dict_def dict_items_def dict_update_def
        List.map_filter_simps)

end
